theory Spec2Isabelle
  imports Complex_Main
begin

section \<open>Conventions\<close>

text \<open>
  The development embeds the clustering path of the lightning parser: the time bucketer,
  the chunk scheduler, the cluster engine (\<open>lightning_bucketer.py\<close>), the chain builder,
  validator and merger (\<open>lightning_stitcher.py\<close>) and \<open>toolbox.chunk_items\<close>.

  \<^item> Python floats and NumPy \<open>float64\<close> values are modelled as \<open>real\<close>: rounding, infinities
    and NaN are outside the model.
  \<^item> Event indices are row positions (\<open>nat\<close>); NumPy arrays and Python lists are lists.
  \<^item> A raised exception is a value \<open>Inl e\<close> of the sum type \<open>error + 'a\<close>.
  \<^item> A name with a leading underscore in the source carries the prefix \<open>priv_\<close>; a name
    that clashes with a constant of the library carries a suffix.
\<close>

section \<open>Errors\<close>

text \<open>
  The exceptions the modelled functions can raise, as values. \<open>ConfigError\<close> is the
  error the specification names for invalid parameters; no line of the source raises it.
\<close>

datatype error = IndexError | KeyError | ValueError | TypeError | ConfigError

section \<open>Chunk Scheduler: \<open>toolbox.chunk_items\<close>\<close>

text \<open>
  The counter is a Python mapping; its \<open>items()\<close> are modelled as the list of
  (key, count) pairs in iteration order. The generator's yields are collected in a list.
  \<open>chunk_loop\<close> is the body of the \<open>for\<close> loop with the two local variables
  \<open>current_bin\<close> and \<open>current_size\<close>, followed by the final \<open>if current_bin: yield\<close>.
\<close>

fun chunk_loop :: "int \<Rightarrow> 'k list \<Rightarrow> int \<Rightarrow> ('k \<times> int) list \<Rightarrow> 'k list list" where
  "chunk_loop max_chunk_size current_bin current_size [] =
     (if current_bin \<noteq> [] then [current_bin] else [])"
| "chunk_loop max_chunk_size current_bin current_size ((number, count) # rest) =
     (if current_bin \<noteq> [] \<and> current_size + count > max_chunk_size
      then current_bin # chunk_loop max_chunk_size [number] count rest
      else chunk_loop max_chunk_size (current_bin @ [number]) (current_size + count) rest)"

definition chunk_items :: "('k \<times> int) list \<Rightarrow> int \<Rightarrow> 'k list list" where
  "chunk_items counter max_chunk_size = chunk_loop max_chunk_size [] 0 counter"

text \<open>The total count of a chunk, read from the counter (specification side).\<close>

definition chunk_total :: "('k \<times> int) list \<Rightarrow> 'k list \<Rightarrow> int" where
  "chunk_total counter ks = sum_list (map (\<lambda>k. the (map_of counter k)) ks)"

text \<open>Every chunk boundary is forced: the chunk before it, plus the first group after it,
  exceeds the limit (specification side).\<close>

fun closed_on_overflow :: "('k \<Rightarrow> int) \<Rightarrow> int \<Rightarrow> 'k list list \<Rightarrow> bool" where
  "closed_on_overflow cnt m (a # b # rest) =
     (sum_list (map cnt a) + cnt (hd b) > m \<and> closed_on_overflow cnt m (b # rest))"
| "closed_on_overflow cnt m _ = True"

section \<open>The event table\<close>

text \<open>
  A pandas DataFrame is a list of rows in positional order; every row carries its index
  label. \<open>.iloc\<close> and \<open>.values\<close> address rows by position, \<open>.loc\<close> by label.
  The columns \<open>x\<close>, \<open>y\<close>, \<open>z\<close> are the fields \<open>col_x\<close>, \<open>col_y\<close>, \<open>col_z\<close>.
\<close>

record row =
  label :: nat
  col_x :: real
  col_y :: real
  col_z :: real
  time_unix :: real

type_synonym dataframe = "row list"

text \<open>
  \<open>df.sort_values(by="time_unix", inplace=True)\<close>: the rows are reordered by time and keep
  their labels. The default sort of pandas (quicksort) is not stable, so rows with equal
  timestamps may come out in another order than here, where they keep their relative
  order. The clusters computed for a table with such ties can differ accordingly; the
  theorems below hold for every table and do not depend on the order of ties.
\<close>

definition sort_values :: "dataframe \<Rightarrow> dataframe" where
  "sort_values df = sort_key time_unix df"

text \<open>NumPy fancy indexing \<open>arr[idxs]\<close> with an index array: out of range raises.\<close>

definition take_rows :: "'a list \<Rightarrow> nat list \<Rightarrow> error + 'a list" where
  "take_rows arr idxs =
     (if list_all (\<lambda>i. i < length arr) idxs then Inr (map (\<lambda>i. arr ! i) idxs)
      else Inl IndexError)"

section \<open>Time Bucketer\<close>

fun diff :: "real list \<Rightarrow> real list" where
  "diff (a # b # rest) = (b - a) # diff (b # rest)"
| "diff _ = []"

fun cumsum_from :: "nat \<Rightarrow> nat list \<Rightarrow> nat list" where
  "cumsum_from acc [] = []"
| "cumsum_from acc (v # vs) = (acc + v) # cumsum_from (acc + v) vs"

definition cumsum :: "nat list \<Rightarrow> nat list" where
  "cumsum vs = cumsum_from 0 vs"

text \<open>Lines 178 to 186 of \<open>_bucket_dataframe_lightnings\<close>: a leading 0 followed by the
  running count of gaps that exceed the threshold.\<close>

definition time_groups :: "real list \<Rightarrow> real \<Rightarrow> nat list" where
  "time_groups time_unix_array max_time_threshold =
     [0] @ cumsum (map (\<lambda>d. if d > max_time_threshold then 1 else 0) (diff time_unix_array))"

text \<open>\<open>collections.Counter\<close> of a sequence: keys in order of first occurrence.\<close>

fun counter_add :: "'k \<Rightarrow> ('k \<times> int) list \<Rightarrow> ('k \<times> int) list" where
  "counter_add k [] = [(k, 1)]"
| "counter_add k ((k', n) # rest) =
     (if k = k' then (k', n + 1) # rest else (k', n) # counter_add k rest)"

definition Counter :: "'k list \<Rightarrow> ('k \<times> int) list" where
  "Counter ks = foldl (\<lambda>c k. counter_add k c) [] ks"

section \<open>Cluster Engine: \<open>_group_process\<close>\<close>

text \<open>The tuple \<open>args_list\<close> that \<open>_group_process\<close> unpacks.\<close>

record group_args =
  all_x_values :: "real list"
  all_y_values :: "real list"
  all_z_values :: "real list"
  all_unix_values :: "real list"
  unique_groups :: "nat list"
  min_pts :: real
  group_ids :: "nat list"
  max_lightning_duration :: real
  max_dist_between_pts :: real
  max_time_threshold :: real
  min_speed :: real
  max_speed :: real

text \<open>A candidate subgroup: the dictionary with the keys \<open>indices\<close>, \<open>x\<close>, \<open>y\<close>, \<open>z\<close>,
  \<open>unix\<close>, each a list that grows by appending.\<close>

record subgroup =
  sg_indices :: "nat list"
  sg_x :: "real list"
  sg_y :: "real list"
  sg_z :: "real list"
  sg_unix :: "real list"

text \<open>An event of the group being scanned: \<open>(j, event_x, event_y, event_z, event_unix)\<close>.\<close>

type_synonym event = "nat \<times> real \<times> real \<times> real \<times> real"

definition event_unix_of :: "event \<Rightarrow> real" where
  "event_unix_of ev = (case ev of (j, ex, ey, ez, eu) \<Rightarrow> eu)"

text \<open>The floor on squared time differences (\<open>np.where(v < 1e-5, 1e-5, v)\<close>).\<close>

definition floor_dt_squared :: "real \<Rightarrow> real" where
  "floor_dt_squared v = (if v < 1 / 100000 then 1 / 100000 else v)"

text \<open>
  Lines 87 to 110: does the subgroup accept the event? The members within the time
  threshold are the candidates; one of them must be close enough, one of them must give
  a squared speed inside the bounds, and the event must lie within the duration of the
  subgroup's first member. Each candidate is \<open>(x, y, z, dt)\<close>.
\<close>

definition candidates :: "real \<Rightarrow> subgroup \<Rightarrow> event \<Rightarrow> (real \<times> real \<times> real \<times> real) list" where
  "candidates thr sg ev =
     (case ev of (j, event_x, event_y, event_z, event_unix) \<Rightarrow>
        filter (\<lambda>(cx, cy, cz, dt). dt \<le> thr)
          (zip (sg_x sg) (zip (sg_y sg) (zip (sg_z sg)
             (map (\<lambda>u. \<bar>event_unix - u\<bar>) (sg_unix sg))))))"

definition distance_squared :: "event \<Rightarrow> (real \<times> real \<times> real \<times> real) \<Rightarrow> real" where
  "distance_squared ev c =
     (case ev of (j, event_x, event_y, event_z, event_unix) \<Rightarrow>
      case c of (cx, cy, cz, dt) \<Rightarrow>
        (cx - event_x) * (cx - event_x) + (cy - event_y) * (cy - event_y)
          + (cz - event_z) * (cz - event_z))"

definition speed_squared :: "event \<Rightarrow> (real \<times> real \<times> real \<times> real) \<Rightarrow> real" where
  "speed_squared ev c =
     (case c of (cx, cy, cz, dt) \<Rightarrow> distance_squared ev c / floor_dt_squared (dt * dt))"

definition subgroup_accepts :: "group_args \<Rightarrow> subgroup \<Rightarrow> event \<Rightarrow> bool" where
  "subgroup_accepts args sg ev =
     (let cands = candidates (max_time_threshold args) sg ev in
      cands \<noteq> []
      \<and> list_ex (\<lambda>c. distance_squared ev c \<le> (max_dist_between_pts args)\<^sup>2) cands
      \<and> list_ex (\<lambda>c. speed_squared ev c \<ge> (min_speed args)\<^sup>2
                      \<and> speed_squared ev c \<le> (max_speed args)\<^sup>2) cands
      \<and> event_unix_of ev - hd (sg_unix sg) \<le> max_lightning_duration args)"

definition append_event :: "subgroup \<Rightarrow> event \<Rightarrow> subgroup" where
  "append_event sg ev =
     (case ev of (j, event_x, event_y, event_z, event_unix) \<Rightarrow>
        \<lparr>sg_indices = sg_indices sg @ [j], sg_x = sg_x sg @ [event_x],
         sg_y = sg_y sg @ [event_y], sg_z = sg_z sg @ [event_z],
         sg_unix = sg_unix sg @ [event_unix]\<rparr>)"

definition new_subgroup :: "event \<Rightarrow> subgroup" where
  "new_subgroup ev =
     (case ev of (j, event_x, event_y, event_z, event_unix) \<Rightarrow>
        \<lparr>sg_indices = [j], sg_x = [event_x], sg_y = [event_y], sg_z = [event_z],
         sg_unix = [event_unix]\<rparr>)"

text \<open>Lines 84 to 118: the first open subgroup that accepts the event takes it; \<open>None\<close>
  is \<open>found = False\<close>.\<close>

fun attach :: "group_args \<Rightarrow> event \<Rightarrow> subgroup list \<Rightarrow> subgroup list option" where
  "attach args ev [] = None"
| "attach args ev (sg # rest) =
     (if subgroup_accepts args sg ev then Some (append_event sg ev # rest)
      else map_option (\<lambda>r. sg # r) (attach args ev rest))"

text \<open>The cluster a subgroup stands for: \<open>[group_indices[idx] for idx in sg["indices"]]\<close>.\<close>

definition cluster_of :: "nat list \<Rightarrow> subgroup \<Rightarrow> nat list" where
  "cluster_of group_indices sg = map (\<lambda>idx. group_indices ! idx) (sg_indices sg)"

text \<open>
  The body of the loop over \<open>j\<close> (lines 63 to 128) as a step on the pair of the strikes
  emitted so far and the open subgroups: finalize the subgroups the event has outrun, keep
  the others open, attach the event or open a new subgroup.
\<close>

definition event_step ::
  "group_args \<Rightarrow> nat list \<Rightarrow> nat list list \<times> subgroup list \<Rightarrow> event \<Rightarrow> nat list list \<times> subgroup list" where
  "event_step args group_indices st ev =
     (case st of (lightning_strikes, sub_groups) \<Rightarrow>
       (let finished = map (cluster_of group_indices)
              (filter (\<lambda>sg. event_unix_of ev - hd (sg_unix sg) > max_lightning_duration args
                            \<and> real (length (sg_indices sg)) \<ge> min_pts args) sub_groups);
            still_open = filter (\<lambda>sg. event_unix_of ev - hd (sg_unix sg) \<le> max_lightning_duration args)
                            sub_groups
        in (lightning_strikes @ finished,
            (case attach args ev still_open of
               Some sgs \<Rightarrow> sgs
             | None \<Rightarrow> still_open @ [new_subgroup ev]))))"

text \<open>Lines 130 to 134: the open subgroups that reach \<open>min_pts\<close> are emitted.\<close>

definition finalize_remaining :: "group_args \<Rightarrow> nat list \<Rightarrow> subgroup list \<Rightarrow> nat list list" where
  "finalize_remaining args group_indices sub_groups =
     map (cluster_of group_indices)
       (filter (\<lambda>sg. real (length (sg_indices sg)) \<ge> min_pts args) sub_groups)"

text \<open>The events of a group: \<open>for j in range(len(x_vals))\<close> with the four reads at \<open>j\<close>.\<close>

definition events_of :: "real list \<Rightarrow> real list \<Rightarrow> real list \<Rightarrow> real list \<Rightarrow> event list" where
  "events_of x_vals y_vals z_vals unix_vals =
     map (\<lambda>j. (j, x_vals ! j, y_vals ! j, z_vals ! j, unix_vals ! j)) [0..<length x_vals]"

text \<open>One group, from its extracted coordinates: the strikes it adds.\<close>

definition scan_group ::
  "group_args \<Rightarrow> nat list \<Rightarrow> real list \<Rightarrow> real list \<Rightarrow> real list \<Rightarrow> real list \<Rightarrow> nat list list" where
  "scan_group args group_indices x_vals y_vals z_vals unix_vals =
     (case foldl (event_step args group_indices) ([], []) (events_of x_vals y_vals z_vals unix_vals) of
        (lightning_strikes, sub_groups) \<Rightarrow>
          lightning_strikes @ finalize_remaining args group_indices sub_groups)"

text \<open>\<open>np.where(group_ids == group)[0]\<close>.\<close>

definition where_group :: "nat list \<Rightarrow> nat \<Rightarrow> nat list" where
  "where_group gids g = filter (\<lambda>i. gids ! i = g) [0..<length gids]"

text \<open>Lines 49 to 134 for one group: skipped when it has fewer than \<open>min_pts\<close> events;
  each of the four extractions can raise.\<close>

definition process_group :: "group_args \<Rightarrow> nat \<Rightarrow> error + nat list list" where
  "process_group args g =
     (let group_indices = where_group (group_ids args) g in
      if real (length group_indices) < min_pts args then Inr []
      else
        case take_rows (all_x_values args) group_indices of Inl e \<Rightarrow> Inl e | Inr x_vals \<Rightarrow>
        case take_rows (all_y_values args) group_indices of Inl e \<Rightarrow> Inl e | Inr y_vals \<Rightarrow>
        case take_rows (all_z_values args) group_indices of Inl e \<Rightarrow> Inl e | Inr z_vals \<Rightarrow>
        case take_rows (all_unix_values args) group_indices of Inl e \<Rightarrow> Inl e | Inr unix_vals \<Rightarrow>
          Inr (scan_group args group_indices x_vals y_vals z_vals unix_vals))"

text \<open>The loop over the groups of the chunk; an exception ends it.\<close>

fun group_loop :: "group_args \<Rightarrow> nat list \<Rightarrow> nat list list \<Rightarrow> error + nat list list" where
  "group_loop args [] lightning_strikes = Inr lightning_strikes"
| "group_loop args (g # gs) lightning_strikes =
     (case process_group args g of
        Inl e \<Rightarrow> Inl e
      | Inr strikes \<Rightarrow> group_loop args gs (lightning_strikes @ strikes))"

definition priv_group_process :: "group_args \<Rightarrow> error + nat list list" where
  "priv_group_process args = group_loop args (unique_groups args) []"

section \<open>\<open>_bucket_dataframe_lightnings\<close>\<close>

text \<open>
  The module constant \<open>MAX_CHUNK_SIZE\<close> is the first argument. \<open>NUM_CORES\<close> is 1 in the
  source, so the chunks are processed by the sequential branch, in order.
\<close>

fun chunk_run :: "(nat list \<Rightarrow> group_args) \<Rightarrow> nat list list \<Rightarrow> nat list list \<Rightarrow> error + nat list list" where
  "chunk_run mk_args [] lightning_strikes = Inr lightning_strikes"
| "chunk_run mk_args (chunk # chunks) lightning_strikes =
     (case priv_group_process (mk_args chunk) of
        Inl e \<Rightarrow> Inl e
      | Inr result \<Rightarrow> chunk_run mk_args chunks (lightning_strikes @ result))"

definition bucket_sorted ::
  "int \<Rightarrow> dataframe \<Rightarrow> real \<Rightarrow> real \<Rightarrow> real \<Rightarrow> real \<Rightarrow> real \<Rightarrow> real \<Rightarrow> error + nat list list" where
  "bucket_sorted MAX_CHUNK_SIZE df max_time_thr max_duration max_dist max_spd min_spd min_points =
     (let gids = time_groups (map time_unix df) max_time_thr;
          group_counter = Counter gids;
          chunks = chunk_items group_counter MAX_CHUNK_SIZE;
          mk_args = (\<lambda>chunk.
            \<lparr>all_x_values = map col_x df, all_y_values = map col_y df,
             all_z_values = map col_z df, all_unix_values = map time_unix df,
             unique_groups = chunk, min_pts = min_points, group_ids = gids,
             max_lightning_duration = max_duration, max_dist_between_pts = max_dist,
             max_time_threshold = max_time_thr, min_speed = min_spd, max_speed = max_spd\<rparr>)
      in chunk_run mk_args chunks [])"

text \<open>The function itself: sort in place, then everything after line 176. The indices it
  returns are positions in the sorted table.\<close>

definition priv_bucket_dataframe_lightnings ::
  "int \<Rightarrow> dataframe \<Rightarrow> real \<Rightarrow> real \<Rightarrow> real \<Rightarrow> real \<Rightarrow> real \<Rightarrow> real \<Rightarrow> error + nat list list" where
  "priv_bucket_dataframe_lightnings MAX_CHUNK_SIZE df max_time_thr max_duration max_dist max_spd min_spd min_points =
     bucket_sorted MAX_CHUNK_SIZE (sort_values df) max_time_thr max_duration max_dist max_spd min_spd min_points"

section \<open>Chain Validator: \<open>filter_correlations_by_chain_size\<close>\<close>

type_synonym correlation = "nat \<times> nat"

text \<open>
  The adjacency dictionary, in insertion order: each node with its set of neighbours,
  kept as a duplicate-free list. Python does not fix the order in which a set is
  iterated; the order only decides in which order the traversal visits a component,
  never which nodes it collects.
\<close>

type_synonym graph = "(nat \<times> nat list) list"

text \<open>\<open>graph.setdefault(k, set()).add(v)\<close>\<close>

fun setdefault_add :: "graph \<Rightarrow> nat \<Rightarrow> nat \<Rightarrow> graph" where
  "setdefault_add [] k v = [(k, [v])]"
| "setdefault_add ((k', s) # rest) k v =
     (if k' = k then (k', (if v \<in> set s then s else s @ [v])) # rest
      else (k', s) # setdefault_add rest k v)"

definition build_graph :: "correlation list \<Rightarrow> graph" where
  "build_graph correlations =
     foldl (\<lambda>g (parent, child). setdefault_add (setdefault_add g parent child) child parent)
       [] correlations"

text \<open>\<open>graph.get(current, [])\<close>\<close>

definition neighbours :: "graph \<Rightarrow> nat \<Rightarrow> nat list" where
  "neighbours g v = (case map_of g v of None \<Rightarrow> [] | Some s \<Rightarrow> s)"

definition graph_nodes :: "graph \<Rightarrow> nat set" where
  "graph_nodes g = fst ` set g \<union> \<Union> (set ` snd ` set g)"

text \<open>
  The \<open>while stack\<close> loop. The head of the list is the top of the stack: \<open>stack.pop()\<close>
  takes it, and \<open>stack.extend\<close> pushes the neighbours so that the last one is on top.
\<close>

function dfs :: "graph \<Rightarrow> nat list \<Rightarrow> nat set \<Rightarrow> nat set" where
  "dfs g [] component = component"
| "dfs g (current # stack) component =
     (if current \<notin> component
      then dfs g (rev (neighbours g current) @ stack) (insert current component)
      else dfs g stack component)"
  by pat_completeness auto

termination dfs
proof (relation "measures [\<lambda>(g, stack, component). card ((set stack \<union> graph_nodes g) - component),
                           \<lambda>(g, stack, component). length stack]", goal_cases)
  case 1
  then show ?case by simp
next
  case (2 g current stack component)
  have nb: "set (neighbours g current) \<subseteq> graph_nodes g"
  proof
    fix w assume w: "w \<in> set (neighbours g current)"
    then obtain s where "map_of g current = Some s" "w \<in> set s"
      by (cases "map_of g current") (auto simp: neighbours_def)
    then have "(current, s) \<in> set g" by (auto dest: map_of_SomeD)
    then have "set s \<in> set ` snd ` set g" by force
    then show "w \<in> graph_nodes g" using \<open>w \<in> set s\<close> unfolding graph_nodes_def by blast
  qed
  have fin: "finite ((set (current # stack) \<union> graph_nodes g) - component)"
    by (simp add: graph_nodes_def)
  have "(set (rev (neighbours g current) @ stack) \<union> graph_nodes g) - insert current component
      \<subset> (set (current # stack) \<union> graph_nodes g) - component"
    using 2 nb by auto
  then have "card ((set (rev (neighbours g current) @ stack) \<union> graph_nodes g) - insert current component)
      < card ((set (current # stack) \<union> graph_nodes g) - component)"
    using fin by (simp add: psubset_card_mono)
  then show ?case by simp
next
  case (3 g current stack component)
  have "card ((set stack \<union> graph_nodes g) - component)
     \<le> card ((set (current # stack) \<union> graph_nodes g) - component)"
    by (rule card_mono) (auto simp: graph_nodes_def)
  then show ?case by auto
qed

text \<open>The body of \<open>for node in graph\<close> on the pair \<open>(visited, valid_nodes)\<close>.\<close>

definition component_step :: "graph \<Rightarrow> real \<Rightarrow> nat set \<times> nat set \<Rightarrow> nat \<Rightarrow> nat set \<times> nat set" where
  "component_step g min_points st node =
     (case st of (visited, valid_nodes) \<Rightarrow>
        if node \<notin> visited then
          (let component = dfs g [node] {} in
             (visited \<union> component,
              if real (card component) \<ge> min_points then valid_nodes \<union> component
              else valid_nodes))
        else (visited, valid_nodes))"

definition valid_nodes_of :: "graph \<Rightarrow> real \<Rightarrow> nat set" where
  "valid_nodes_of g min_points = snd (foldl (component_step g min_points) ({}, {}) (map fst g))"

definition filter_correlations_by_chain_size :: "correlation list \<Rightarrow> real \<Rightarrow> correlation list" where
  "filter_correlations_by_chain_size correlations min_points =
     (let valid_nodes = valid_nodes_of (build_graph correlations) min_points in
      filter (\<lambda>(p, c). p \<in> valid_nodes \<and> c \<in> valid_nodes) correlations)"

section \<open>Chain Builder: \<open>stitch_lightning_strike\<close>\<close>

text \<open>The keyword dictionary \<open>params\<close>; \<open>params.get(key, default)\<close>.\<close>

type_synonym params = "string \<rightharpoonup> real"

definition get_param :: "params \<Rightarrow> string \<Rightarrow> real \<Rightarrow> real" where
  "get_param ps key dflt = (case ps key of None \<Rightarrow> dflt | Some v \<Rightarrow> v)"

text \<open>
  \<open>events.loc[idx, "time_unix"]\<close> looks the row up by its label: no row with the label
  raises \<open>KeyError\<close>, one row gives its time, several rows give a Series.
\<close>

datatype loc_result = Scalar real | Series

definition loc_time_unix :: "dataframe \<Rightarrow> nat \<Rightarrow> error + loc_result" where
  "loc_time_unix events idx =
     (case filter (\<lambda>r. label r = idx) events of
        [] \<Rightarrow> Inl KeyError
      | [r] \<Rightarrow> Inr (Scalar (time_unix r))
      | _ \<Rightarrow> Inr Series)"

fun loc_keys :: "dataframe \<Rightarrow> nat list \<Rightarrow> error + loc_result list" where
  "loc_keys events [] = Inr []"
| "loc_keys events (idx # rest) =
     (case loc_time_unix events idx of
        Inl e \<Rightarrow> Inl e
      | Inr k \<Rightarrow> (case loc_keys events rest of Inl e \<Rightarrow> Inl e | Inr ks \<Rightarrow> Inr (k # ks)))"

definition scalar_of :: "loc_result \<Rightarrow> real" where
  "scalar_of k = (case k of Scalar t \<Rightarrow> t | Series \<Rightarrow> 0)"

text \<open>
  \<open>sorted(strike_indeces, key=lambda idx: events.loc[idx, "time_unix"])\<close>: the keys are
  computed first, in list order; the sort is stable. Comparing a Series key raises
  \<open>ValueError\<close>, and a list of two or more elements compares every key.
\<close>

definition sorted_by_loc_time :: "dataframe \<Rightarrow> nat list \<Rightarrow> error + nat list" where
  "sorted_by_loc_time events strike_indeces =
     (case loc_keys events strike_indeces of
        Inl e \<Rightarrow> Inl e
      | Inr keys \<Rightarrow>
          if length strike_indeces \<ge> 2 \<and> Series \<in> set keys then Inl ValueError
          else Inr (map fst (sort_key (\<lambda>(idx, k). scalar_of k) (zip strike_indeces keys))))"

text \<open>The pairwise quantities of lines 108 to 123, between an earlier row and the current one.\<close>

definition distances_squared :: "row \<Rightarrow> row \<Rightarrow> real" where
  "distances_squared pre cur =
     (col_x pre - col_x cur) * (col_x pre - col_x cur)
     + (col_y pre - col_y cur) * (col_y pre - col_y cur)
     + (col_z pre - col_z cur) * (col_z pre - col_z cur)"

definition dt_squared :: "row \<Rightarrow> row \<Rightarrow> real" where
  "dt_squared pre cur =
     floor_dt_squared ((time_unix cur - time_unix pre) * (time_unix cur - time_unix pre))"

definition speeds_squared :: "row \<Rightarrow> row \<Rightarrow> real" where
  "speeds_squared pre cur = distances_squared pre cur / dt_squared pre cur"

text \<open>Lines 126 to 135: the mask, for one earlier row.\<close>

definition mask :: "params \<Rightarrow> row \<Rightarrow> row \<Rightarrow> bool" where
  "mask ps pre cur =
     (distances_squared pre cur \<le> (get_param ps ''max_lightning_dist'' 50000)\<^sup>2
      \<and> speeds_squared pre cur \<le> (get_param ps ''max_lightning_speed'' 299792.458)\<^sup>2
      \<and> speeds_squared pre cur \<ge> (get_param ps ''min_lightning_speed'' 0)\<^sup>2
      \<and> dt_squared pre cur \<le> (get_param ps ''max_lightning_time_threshold'' 1)\<^sup>2)"

text \<open>\<open>np.where(mask)[0]\<close> over the rows before position \<open>i\<close>.\<close>

definition valid_indices :: "params \<Rightarrow> row list \<Rightarrow> nat \<Rightarrow> nat list" where
  "valid_indices ps rows i = filter (\<lambda>k. mask ps (rows ! k) (rows ! i)) [0..<i]"

text \<open>\<open>np.argmin\<close>: the first position of the minimum (of a non-empty list).\<close>

fun argmin :: "real list \<Rightarrow> nat" where
  "argmin [] = 0"
| "argmin [v] = 0"
| "argmin (v # vs) = (let k = argmin vs in if v \<le> vs ! k then 0 else Suc k)"

text \<open>
  The body of the loop over \<open>i\<close> (lines 94 to 149) on the pair
  \<open>(parsed_indices, correlations)\<close>. \<open>rows\<close> are the rows of \<open>strike_series_df\<close>.
\<close>

definition stitch_step ::
  "params \<Rightarrow> nat list \<Rightarrow> row list \<Rightarrow> nat list \<times> correlation list \<Rightarrow> nat \<Rightarrow> nat list \<times> correlation list" where
  "stitch_step ps strike_indeces rows st i =
     (case st of (parsed_indices, correlations) \<Rightarrow>
       (let current_indice = strike_indeces ! i in
        if length parsed_indices > 0 then
          (let valid = valid_indices ps rows i in
           if valid \<noteq> [] then
             (let valid_distances_squared = map (\<lambda>k. distances_squared (rows ! k) (rows ! i)) valid;
                  min_valid_idx = argmin valid_distances_squared;
                  candidate_idx = valid ! min_valid_idx;
                  parent_indice = parsed_indices ! candidate_idx
              in (parsed_indices @ [current_indice], correlations @ [(parent_indice, current_indice)]))
           else (parsed_indices @ [current_indice], correlations))
        else (parsed_indices @ [current_indice], correlations)))"

definition build_correlations :: "params \<Rightarrow> nat list \<Rightarrow> row list \<Rightarrow> correlation list" where
  "build_correlations ps strike_indeces rows =
     snd (foldl (stitch_step ps strike_indeces rows) ([], []) [0..<length strike_indeces])"

definition stitch_lightning_strike :: "nat list \<Rightarrow> dataframe \<Rightarrow> params \<Rightarrow> error + correlation list" where
  "stitch_lightning_strike strike_indeces events ps =
     (case sorted_by_loc_time events strike_indeces of
        Inl e \<Rightarrow> Inl e
      | Inr sorted_indeces \<Rightarrow>
          (case take_rows events sorted_indeces of
             Inl e \<Rightarrow> Inl e
           | Inr rows \<Rightarrow>
               Inr (filter_correlations_by_chain_size
                      (build_correlations ps sorted_indeces rows)
                      (get_param ps ''min_lightning_points'' 300))))"

section \<open>Chain Merger: \<open>stitch_lightning_strikes\<close>\<close>

fun stitch_each :: "nat list list \<Rightarrow> dataframe \<Rightarrow> params \<Rightarrow> error + correlation list list" where
  "stitch_each [] events ps = Inr []"
| "stitch_each (strike_indices # rest) events ps =
     (case stitch_lightning_strike strike_indices events ps of
        Inl e \<Rightarrow> Inl e
      | Inr correlations \<Rightarrow>
          (case stitch_each rest events ps of
             Inl e \<Rightarrow> Inl e
           | Inr others \<Rightarrow> Inr (correlations # others)))"

text \<open>
  \<open>list({idx for pair in corr for idx in pair})\<close>: the distinct event indices of a chain.
  CPython lists a set in the order of its hash slots; the model lists the indices in
  ascending order. The order reaches the result only through the stable sort of the
  Chain Builder, among events with equal timestamps, where the merged chain can differ;
  the theorems below do not depend on it.
\<close>

definition unique_idx_list :: "correlation list \<Rightarrow> nat list" where
  "unique_idx_list corr = remdups (sort (concat (map (\<lambda>(p, c). [p, c]) corr)))"

text \<open>\<open>sorted(correlations, key=lambda corr: all_times[corr[0]])\<close>\<close>

definition sort_by_parent_time :: "dataframe \<Rightarrow> correlation list \<Rightarrow> correlation list" where
  "sort_by_parent_time events corr = sort_key (\<lambda>(p, c). time_unix (events ! p)) corr"

text \<open>Lines 217 to 236: does the candidate chain merge into the existing chain \<open>temp_corr\<close>?\<close>

definition merges_into :: "dataframe \<Rightarrow> params \<Rightarrow> correlation list \<Rightarrow> correlation list \<Rightarrow> bool" where
  "merges_into events ps sorted_corr temp_corr =
     (let ext_buffer = get_param ps ''intercepting_times_extension_buffer'' 10;
          max_duration = get_param ps ''max_lightning_duration'' 10;
          max_distance = get_param ps ''intercepting_times_extension_max_distance'' 15000;
          start_row = events ! fst (hd sorted_corr);
          start_time = time_unix start_row;
          end_time = time_unix (events ! snd (last sorted_corr));
          temp_start = time_unix (events ! fst (hd temp_corr));
          temp_end = time_unix (events ! snd (last temp_corr)) + ext_buffer;
          within_duration = (max \<bar>end_time - temp_start\<bar> \<bar>start_time - temp_end\<bar> < max_duration);
          intercept_window = (temp_start < start_time \<and> start_time < temp_end)
      in intercept_window \<and> within_duration
         \<and> list_ex (\<lambda>idx. distances_squared (events ! idx) start_row \<le> max_distance\<^sup>2)
              (unique_idx_list temp_corr))"

text \<open>
  The loop over the chains merged so far (lines 216 to 246): the first chain that takes
  the candidate is replaced by the re-stitched union; \<open>None\<close> is \<open>result_found = False\<close>.
  An empty chain among them makes \<open>temp_corr[0]\<close> raise.
\<close>

fun merge_first ::
  "dataframe \<Rightarrow> params \<Rightarrow> correlation list \<Rightarrow> correlation list list \<Rightarrow> error + correlation list list option" where
  "merge_first events ps sorted_corr [] = Inr None"
| "merge_first events ps sorted_corr (temp_corr # rest) =
     (if temp_corr = [] then Inl IndexError
      else if merges_into events ps sorted_corr temp_corr then
        (case stitch_lightning_strike (unique_idx_list (temp_corr @ sorted_corr)) events ps of
           Inl e \<Rightarrow> Inl e
         | Inr merged \<Rightarrow> Inr (Some (sort_by_parent_time events merged # rest)))
      else
        (case merge_first events ps sorted_corr rest of
           Inl e \<Rightarrow> Inl e
         | Inr None \<Rightarrow> Inr None
         | Inr (Some rest') \<Rightarrow> Inr (Some (temp_corr # rest'))))"

text \<open>The loop over the stitched strikes (lines 199 to 249).\<close>

fun merge_loop ::
  "dataframe \<Rightarrow> params \<Rightarrow> correlation list list \<Rightarrow> correlation list list \<Rightarrow> error + correlation list list" where
  "merge_loop events ps [] temp_bucketed_correlations = Inr temp_bucketed_correlations"
| "merge_loop events ps (correlations # rest) temp_bucketed_correlations =
     (if length correlations = 0 then merge_loop events ps rest temp_bucketed_correlations
      else
        (let sorted_corr = sort_by_parent_time events correlations in
         case merge_first events ps sorted_corr temp_bucketed_correlations of
           Inl e \<Rightarrow> Inl e
         | Inr (Some temp') \<Rightarrow> merge_loop events ps rest temp'
         | Inr None \<Rightarrow> merge_loop events ps rest (temp_bucketed_correlations @ [sorted_corr])))"

text \<open>\<open>combine\<close> is read for its truth value: a missing key is \<open>True\<close>, a number is true
  unless it is zero.\<close>

definition stitch_lightning_strikes ::
  "nat list list \<Rightarrow> dataframe \<Rightarrow> params \<Rightarrow> error + correlation list list" where
  "stitch_lightning_strikes bucketed_strike_indices events ps =
     (case stitch_each bucketed_strike_indices events ps of
        Inl e \<Rightarrow> Inl e
      | Inr bucketed_correlations \<Rightarrow>
          if get_param ps ''combine_strikes_with_intercepting_times'' 1 \<noteq> 0
          then merge_loop events ps bucketed_correlations []
          else Inr bucketed_correlations)"

section \<open>\<open>bucket_dataframe_lightnings\<close>\<close>

text \<open>Lines 332 to 340: the clustering call, with the defaults it reads.\<close>

definition raw_groups_of :: "int \<Rightarrow> dataframe \<Rightarrow> params \<Rightarrow> error + nat list list" where
  "raw_groups_of MAX_CHUNK_SIZE df ps =
     priv_bucket_dataframe_lightnings MAX_CHUNK_SIZE df
       (get_param ps ''max_lightning_time_threshold'' 1)
       (get_param ps ''max_lightning_duration'' 20.0)
       (get_param ps ''max_lightning_dist'' 50000)
       (get_param ps ''max_lightning_speed'' 299792.458)
       (get_param ps ''min_lightning_speed'' 0)
       (get_param ps ''min_lightning_points'' 300)"

text \<open>
  The result cache is a file; its lookup (\<open>_get_result_cache\<close>, under \<open>USE_CACHE\<close>) is
  the argument \<open>cached\<close>, and the write at the end is not modelled.

  On a miss the function clusters and then calls
  \<open>lightning_stitcher.stitch_lightning_strikes(raw_groups, df, params)\<close>. The callee is
  declared \<open>stitch_lightning_strikes(bucketed_strike_indices, events, **params)\<close>: it
  takes two positional arguments, so the call with three raises \<open>TypeError\<close> before the
  callee's body runs, and lines 344 to 355 are not reached.
\<close>

definition bucket_dataframe_lightnings ::
  "int \<Rightarrow> (nat list list \<times> correlation list list) option \<Rightarrow> dataframe \<Rightarrow> params
     \<Rightarrow> error + (nat list list \<times> correlation list list)" where
  "bucket_dataframe_lightnings MAX_CHUNK_SIZE cached df ps =
     (case cached of
        Some cached_data \<Rightarrow> Inr cached_data
      | None \<Rightarrow>
          (case raw_groups_of MAX_CHUNK_SIZE df ps of
             Inl e \<Rightarrow> Inl e
           | Inr raw_groups \<Rightarrow> Inl TypeError))"

section \<open>Invariants and specification-side notions\<close>

text \<open>
  The invariant of an open subgroup while the events \<open>0..<k\<close> of a group with timestamps
  \<open>u\<close> have been scanned: it is not empty, its cached timestamps are those of its
  members, its members are scanned events, and every member lies between the first
  member's time and that time plus the duration limit.
\<close>

definition sg_inv :: "real \<Rightarrow> real list \<Rightarrow> nat \<Rightarrow> subgroup \<Rightarrow> bool" where
  "sg_inv dur u k sg \<longleftrightarrow>
     sg_indices sg \<noteq> []
     \<and> sg_unix sg = map (\<lambda>j. u ! j) (sg_indices sg)
     \<and> list_all (\<lambda>j. j < k \<and> u ! hd (sg_indices sg) \<le> u ! j
                      \<and> u ! j - u ! hd (sg_indices sg) \<le> dur) (sg_indices sg)"

text \<open>A cluster of positions \<open>js\<close> of the group spans at most the duration limit.\<close>

definition span_ok :: "real \<Rightarrow> real list \<Rightarrow> nat list \<Rightarrow> bool" where
  "span_ok dur u js \<longleftrightarrow>
     list_all (\<lambda>a. a < length u \<and> list_all (\<lambda>b. u ! a - u ! b \<le> dur) js) js"

text \<open>
  The parent the Chain Builder gives to the event at position \<open>i\<close> of the processing
  order, as a position of that order: the first position, among the earlier ones that
  pass the mask, of the least squared distance.
\<close>

definition parent_position :: "params \<Rightarrow> row list \<Rightarrow> nat \<Rightarrow> nat option" where
  "parent_position ps rows i =
     (let valid = valid_indices ps rows i in
      if 0 < i \<and> valid \<noteq> []
      then Some (valid ! argmin (map (\<lambda>k. distances_squared (rows ! k) (rows ! i)) valid))
      else None)"

definition edge_at :: "params \<Rightarrow> nat list \<Rightarrow> row list \<Rightarrow> nat \<Rightarrow> correlation list" where
  "edge_at ps strike_indeces rows i =
     (case parent_position ps rows i of
        None \<Rightarrow> []
      | Some k \<Rightarrow> [(strike_indeces ! k, strike_indeces ! i)])"

text \<open>The Euclidean distance of two events and their speed, distance over time difference.\<close>

definition euclid_distance :: "row \<Rightarrow> row \<Rightarrow> real" where
  "euclid_distance pre cur = sqrt (distances_squared pre cur)"

definition pair_speed :: "row \<Rightarrow> row \<Rightarrow> real" where
  "pair_speed pre cur = euclid_distance pre cur / \<bar>time_unix cur - time_unix pre\<bar>"

text \<open>The directed edges an adjacency dictionary stands for.\<close>

definition edges_of :: "graph \<Rightarrow> (nat \<times> nat) set" where
  "edges_of g = {(u, v). v \<in> set (neighbours g u)}"

text \<open>
  The connected component of a node in the undirected graph whose edge set is the
  correlation list: the nodes reachable along correlations in either direction.
\<close>

definition component_of :: "correlation list \<Rightarrow> nat \<Rightarrow> nat set" where
  "component_of correlations v = {u. (v, u) \<in> (set correlations \<union> (set correlations)\<inverse>)\<^sup>*}"

text \<open>The arguments of the Cluster Engine with the distance and speed bounds negated.\<close>

definition negate_bounds :: "group_args \<Rightarrow> group_args" where
  "negate_bounds args = args\<lparr>max_dist_between_pts := - max_dist_between_pts args,
      min_speed := - min_speed args, max_speed := - max_speed args\<rparr>"

text \<open>
  The members of an open subgroup, while the events \<open>0..<k\<close> of a group have been scanned:
  positions below \<open>k\<close>, in strictly ascending order.
\<close>

definition sg_ascending :: "nat \<Rightarrow> subgroup \<Rightarrow> bool" where
  "sg_ascending k sg \<longleftrightarrow>
     sorted_wrt (<) (sg_indices sg) \<and> list_all (\<lambda>j. j < k) (sg_indices sg)"

section \<open>Properties of the Chunk Scheduler\<close>

lemma chunk_loop_concat: "concat (chunk_loop m bin sz rest) = bin @ map fst rest"
  by (induction rest arbitrary: bin sz) auto

lemma chunk_loop_nonempty: "[] \<notin> set (chunk_loop m bin sz rest)"
  by (induction rest arbitrary: bin sz) (auto split: if_splits)

lemma chunk_loop_hd:
  "bin \<noteq> [] \<or> rest \<noteq> [] \<Longrightarrow> \<exists>ks cs. chunk_loop m bin sz rest = (bin @ ks) # cs"
proof (induction rest arbitrary: bin sz)
  case Nil
  then show ?case by simp
next
  case (Cons a rest)
  obtain k n where a: "a = (k, n)" by (cases a)
  show ?case
  proof (cases "bin \<noteq> [] \<and> sz + n > m")
    case True
    then show ?thesis using a by simp
  next
    case False
    from Cons.IH[of "bin @ [k]" "sz + n"]
    obtain ks cs where "chunk_loop m (bin @ [k]) (sz + n) rest = ((bin @ [k]) @ ks) # cs" by auto
    then show ?thesis using False a by auto
  qed
qed

lemma chunk_loop_closed:
  "\<forall>(k, n) \<in> set rest. cnt k = n \<Longrightarrow> sz = sum_list (map cnt bin) \<Longrightarrow>
   closed_on_overflow cnt m (chunk_loop m bin sz rest)"
proof (induction rest arbitrary: bin sz)
  case Nil
  then show ?case by simp
next
  case (Cons a rest)
  obtain k n where a: "a = (k, n)" by (cases a)
  show ?case
  proof (cases "bin \<noteq> [] \<and> sz + n > m")
    case True
    let ?L = "chunk_loop m [k] n rest"
    obtain ks cs where L: "?L = ([k] @ ks) # cs" using chunk_loop_hd[of "[k]" rest m n] by auto
    have "closed_on_overflow cnt m ?L" using Cons.IH[of n "[k]"] Cons.prems a by auto
    then show ?thesis using True a L Cons.prems by auto
  next
    case False
    then show ?thesis using Cons.IH[of "sz + n" "bin @ [k]"] Cons.prems a by auto
  qed
qed

lemma chunk_loop_bounded:
  "\<forall>(k, n) \<in> set rest. cnt k = n \<Longrightarrow> sz = sum_list (map cnt bin) \<Longrightarrow>
   length bin \<le> 1 \<or> sz \<le> m \<Longrightarrow>
   \<forall>ch \<in> set (chunk_loop m bin sz rest). length ch \<le> 1 \<or> sum_list (map cnt ch) \<le> m"
proof (induction rest arbitrary: bin sz)
  case Nil
  then show ?case by auto
next
  case (Cons a rest)
  obtain k n where a: "a = (k, n)" by (cases a)
  show ?case
  proof (cases "bin \<noteq> [] \<and> sz + n > m")
    case True
    have "\<forall>ch \<in> set (chunk_loop m [k] n rest). length ch \<le> 1 \<or> sum_list (map cnt ch) \<le> m"
      using Cons.IH[of n "[k]"] Cons.prems a by auto
    then show ?thesis using True a Cons.prems by auto
  next
    case False
    have "\<forall>ch \<in> set (chunk_loop m (bin @ [k]) (sz + n) rest). length ch \<le> 1 \<or> sum_list (map cnt ch) \<le> m"
      using Cons.IH[of "sz + n" "bin @ [k]"] Cons.prems a False by auto
    then show ?thesis using False a by auto
  qed
qed

lemma chunk_loop_big_alone:
  "m < s \<Longrightarrow> \<forall>(k', n') \<in> set rest. 0 \<le> n' \<Longrightarrow> [k] \<in> set (chunk_loop m [k] s rest)"
  by (cases rest) auto

lemma chunk_loop_big:
  "(k, n) \<in> set rest \<Longrightarrow> m < n \<Longrightarrow> \<forall>(k', n') \<in> set rest. 0 \<le> n' \<Longrightarrow> 0 \<le> sz \<Longrightarrow>
   [k] \<in> set (chunk_loop m bin sz rest)"
proof (induction rest arbitrary: bin sz)
  case Nil
  then show ?case by simp
next
  case (Cons a rest)
  obtain k' n' where a: "a = (k', n')" by (cases a)
  have n': "0 \<le> n'" using Cons.prems a by auto
  have rest: "\<forall>(k', n') \<in> set rest. 0 \<le> n'" using Cons.prems by auto
  show ?case
  proof (cases "a = (k, n)")
    case True
    have "\<And>s. m < s \<Longrightarrow> [k] \<in> set (chunk_loop m [k] s rest)"
      using chunk_loop_big_alone[OF _ rest] by blast
    then have "[k] \<in> set (chunk_loop m [k] n rest)" "[k] \<in> set (chunk_loop m [k] (sz + n) rest)"
      using Cons.prems(2,4) by auto
    then show ?thesis using True Cons.prems(2,4) by auto
  next
    case False
    then have "(k, n) \<in> set rest" using Cons.prems by auto
    then have "\<And>bin sz. 0 \<le> sz \<Longrightarrow> [k] \<in> set (chunk_loop m bin sz rest)"
      using Cons.IH Cons.prems(2) rest by blast
    then show ?thesis using a n' Cons.prems(4) by auto
  qed
qed

lemma concat_distinct_same_index:
  "distinct (concat xss) \<Longrightarrow> i < length xss \<Longrightarrow> j < length xss \<Longrightarrow>
   k \<in> set (xss ! i) \<Longrightarrow> k \<in> set (xss ! j) \<Longrightarrow> i = j"
proof (induction xss arbitrary: i j)
  case Nil
  then show ?case by simp
next
  case (Cons xs xss)
  show ?case
  proof (cases i)
    case 0
    show ?thesis
    proof (cases j)
      case (Suc j')
      then have "xss ! j' \<in> set xss" using Cons.prems by simp
      then have "k \<in> set (concat xss)" using Cons.prems Suc by auto
      then show ?thesis using 0 Cons.prems by auto
    qed (simp add: 0)
  next
    case (Suc i')
    then have "xss ! i' \<in> set xss" using Cons.prems by simp
    then have ki: "k \<in> \<Union> (set ` set xss)" using Cons.prems Suc by auto
    show ?thesis
    proof (cases j)
      case 0
      then show ?thesis using ki Cons.prems by auto
    next
      case (Suc j')
      then show ?thesis using Cons.IH[of i' j'] Cons.prems \<open>i = Suc i'\<close> by auto
    qed
  qed
qed

lemma exactly_one_chunk:
  assumes "distinct (concat xss)" "k \<in> set (concat xss)"
  shows "\<exists>!i. i < length xss \<and> k \<in> set (xss ! i)"
proof -
  from assms(2) obtain xs where "xs \<in> set xss" "k \<in> set xs" by auto
  then obtain i where i: "i < length xss" "k \<in> set (xss ! i)"
    by (auto simp: in_set_conv_nth)
  then show ?thesis using concat_distinct_same_index[OF assms(1)] by blast
qed

lemma map_of_counts:
  "distinct (map fst counter) \<Longrightarrow> \<forall>(k, n) \<in> set counter. the (map_of counter k) = n"
  by auto

text \<open>
  C5. For a counter with distinct keys and positive counts, and any \<open>max_chunk_size\<close>:
  the chunks concatenated are the keys in iteration order; no chunk is empty; every key
  lies in exactly one chunk; at every boundary the closed chunk plus the next group
  exceeds the limit; a chunk of two or more groups stays within the limit; and a group
  whose count alone exceeds the limit is a chunk by itself.
\<close>

theorem chunk_items_partition:
  assumes "distinct (map fst counter)" and "\<forall>(k, n) \<in> set counter. 0 < n"
  shows "concat (chunk_items counter m) = map fst counter
       \<and> [] \<notin> set (chunk_items counter m)
       \<and> (\<forall>k \<in> set (map fst counter).
             \<exists>!i. i < length (chunk_items counter m) \<and> k \<in> set (chunk_items counter m ! i))
       \<and> closed_on_overflow (\<lambda>k. the (map_of counter k)) m (chunk_items counter m)
       \<and> (\<forall>ch \<in> set (chunk_items counter m). length ch \<le> 1 \<or> chunk_total counter ch \<le> m)
       \<and> (\<forall>(k, n) \<in> set counter. m < n \<longrightarrow> [k] \<in> set (chunk_items counter m))"
proof -
  let ?cnt = "\<lambda>k. the (map_of counter k)"
  have c: "concat (chunk_items counter m) = map fst counter"
    by (simp add: chunk_items_def chunk_loop_concat)
  have e: "[] \<notin> set (chunk_items counter m)"
    by (simp add: chunk_items_def chunk_loop_nonempty)
  have u: "\<forall>k \<in> set (map fst counter).
             \<exists>!i. i < length (chunk_items counter m) \<and> k \<in> set (chunk_items counter m ! i)"
    using exactly_one_chunk[of "chunk_items counter m"] assms(1) c by metis
  have cnt: "\<forall>(k, n) \<in> set counter. ?cnt k = n"
    using map_of_counts[OF assms(1)] .
  have o: "closed_on_overflow ?cnt m (chunk_items counter m)"
    unfolding chunk_items_def by (rule chunk_loop_closed[OF cnt]) simp
  have b: "\<forall>ch \<in> set (chunk_items counter m). length ch \<le> 1 \<or> chunk_total counter ch \<le> m"
    unfolding chunk_items_def chunk_total_def by (rule chunk_loop_bounded[OF cnt]) simp_all
  have nn: "\<forall>(k', n') \<in> set counter. 0 \<le> n'" using assms(2) by auto
  have g: "\<forall>(k, n) \<in> set counter. m < n \<longrightarrow> [k] \<in> set (chunk_items counter m)"
    unfolding chunk_items_def using chunk_loop_big[OF _ _ nn, of _ _ m 0 "[]"] by auto
  show ?thesis using c e u o b g by blast
qed

theorem chunk_items_partition_witness:
  "distinct (map fst [(0::nat, 3::int), (1, 2), (2, 5), (3, 1), (4, 9)])
   \<and> list_all (\<lambda>(k, n). 0 < n) [(0::nat, 3::int), (1, 2), (2, 5), (3, 1), (4, 9)]
   \<and> chunk_items [(0::nat, 3::int), (1, 2), (2, 5), (3, 1), (4, 9)] 5 = [[0, 1], [2], [3], [4]]
   \<and> concat (chunk_items [(0::nat, 3::int), (1, 2), (2, 5), (3, 1), (4, 9)] 5) = [0, 1, 2, 3, 4]
   \<and> [4] \<in> set (chunk_items [(0::nat, 3::int), (1, 2), (2, 5), (3, 1), (4, 9)] 5)"
proof -
  have d: "distinct (map fst [(0::nat, 3::int), (1, 2), (2, 5), (3, 1), (4, 9)])" by simp
  have p: "\<forall>(k, n) \<in> set [(0::nat, 3::int), (1, 2), (2, 5), (3, 1), (4, 9)]. 0 < n" by simp
  have v: "chunk_items [(0::nat, 3::int), (1, 2), (2, 5), (3, 1), (4, 9)] 5 = [[0, 1], [2], [3], [4]]"
    by (simp add: chunk_items_def)
  from chunk_items_partition[OF d p, of 5] show ?thesis using d p v by simp
qed

section \<open>Chunking does not change the clusters\<close>

lemma subgroup_accepts_unique_groups:
  "subgroup_accepts (args\<lparr>unique_groups := gs\<rparr>) sg ev = subgroup_accepts args sg ev"
  by (simp add: subgroup_accepts_def)

lemma attach_unique_groups:
  "attach (args\<lparr>unique_groups := gs\<rparr>) ev sgs = attach args ev sgs"
  by (induction sgs) (simp_all add: subgroup_accepts_unique_groups)

lemma event_step_unique_groups:
  "event_step (args\<lparr>unique_groups := gs\<rparr>) = event_step args"
  by (intro ext) (simp add: event_step_def attach_unique_groups)

lemma scan_group_unique_groups:
  "scan_group (args\<lparr>unique_groups := gs\<rparr>) = scan_group args"
  by (intro ext) (simp add: scan_group_def event_step_unique_groups finalize_remaining_def)

lemma process_group_unique_groups:
  "process_group (args\<lparr>unique_groups := gs\<rparr>) g = process_group args g"
  by (simp add: process_group_def scan_group_unique_groups Let_def cong: sum.case_cong if_cong)

lemma group_loop_unique_groups:
  "group_loop (args\<lparr>unique_groups := gs\<rparr>) groups acc = group_loop args groups acc"
  by (induction groups arbitrary: acc) (simp_all add: process_group_unique_groups split: sum.splits)

lemma group_loop_append:
  "group_loop args (gs1 @ gs2) acc =
     (case group_loop args gs1 acc of Inl e \<Rightarrow> Inl e | Inr r \<Rightarrow> group_loop args gs2 r)"
  by (induction gs1 arbitrary: acc) (simp_all split: sum.splits)

lemma group_loop_acc:
  "group_loop args gs acc =
     (case group_loop args gs [] of Inl e \<Rightarrow> Inl e | Inr r \<Rightarrow> Inr (acc @ r))"
proof (induction gs arbitrary: acc)
  case Nil
  then show ?case by simp
next
  case (Cons g gs)
  show ?case
  proof (cases "process_group args g")
    case (Inl e)
    then show ?thesis by simp
  next
    case (Inr strikes)
    have "group_loop args gs (acc @ strikes) =
        (case group_loop args gs [] of Inl e \<Rightarrow> Inl e | Inr r \<Rightarrow> Inr (acc @ strikes @ r))"
      using Cons.IH[of "acc @ strikes"] by (simp split: sum.splits)
    moreover have "group_loop args gs strikes =
        (case group_loop args gs [] of Inl e \<Rightarrow> Inl e | Inr r \<Rightarrow> Inr (strikes @ r))"
      using Cons.IH[of strikes] by simp
    ultimately show ?thesis using Inr by (simp split: sum.splits)
  qed
qed

lemma chunk_run_concat:
  assumes "\<And>chunk. mk chunk = args\<lparr>unique_groups := chunk\<rparr>"
  shows "chunk_run mk chunks acc = group_loop args (concat chunks) acc"
proof (induction chunks arbitrary: acc)
  case Nil
  then show ?case by simp
next
  case (Cons chunk chunks)
  have "priv_group_process (mk chunk) = group_loop args chunk []"
    by (simp add: priv_group_process_def assms group_loop_unique_groups)
  moreover have "group_loop args chunk acc =
      (case group_loop args chunk [] of Inl e \<Rightarrow> Inl e | Inr r \<Rightarrow> Inr (acc @ r))"
    by (rule group_loop_acc)
  ultimately show ?case using Cons.IH
    by (simp add: group_loop_append split: sum.splits)
qed

lemma bucket_sorted_groups:
  "bucket_sorted m df thr dur dst maxs mins mp =
     group_loop
       \<lparr>all_x_values = map col_x df, all_y_values = map col_y df,
        all_z_values = map col_z df, all_unix_values = map time_unix df,
        unique_groups = [], min_pts = mp, group_ids = time_groups (map time_unix df) thr,
        max_lightning_duration = dur, max_dist_between_pts = dst,
        max_time_threshold = thr, min_speed = mins, max_speed = maxs\<rparr>
       (map fst (Counter (time_groups (map time_unix df) thr))) []"
  unfolding bucket_sorted_def Let_def
  by (subst chunk_run_concat[where args = "\<lparr>all_x_values = map col_x df, all_y_values = map col_y df,
        all_z_values = map col_z df, all_unix_values = map time_unix df,
        unique_groups = [], min_pts = mp, group_ids = time_groups (map time_unix df) thr,
        max_lightning_duration = dur, max_dist_between_pts = dst,
        max_time_threshold = thr, min_speed = mins, max_speed = maxs\<rparr>"])
     (simp_all add: chunk_items_def chunk_loop_concat)

lemma bucket_sorted_chunk_invariant:
  "bucket_sorted m1 df thr dur dst maxs mins mp = bucket_sorted m2 df thr dur dst maxs mins mp"
  by (simp add: bucket_sorted_groups)

section \<open>The duration invariant of the Cluster Engine\<close>

lemma sg_inv_mono: "sg_inv dur u k sg \<Longrightarrow> k \<le> k' \<Longrightarrow> sg_inv dur u k' sg"
  by (auto simp: sg_inv_def list_all_iff)

lemma sg_inv_span:
  assumes "sg_inv dur u k sg" "k \<le> length u"
  shows "span_ok dur u (sg_indices sg)"
proof -
  let ?h = "u ! hd (sg_indices sg)"
  have m: "\<And>j. j \<in> set (sg_indices sg) \<Longrightarrow> j < k \<and> ?h \<le> u ! j \<and> u ! j - ?h \<le> dur"
    using assms(1) by (auto simp: sg_inv_def list_all_iff)
  have "u ! a - u ! b \<le> dur" if "a \<in> set (sg_indices sg)" "b \<in> set (sg_indices sg)" for a b
    using m[OF that(1)] m[OF that(2)] by linarith
  then show ?thesis using m assms(2) by (fastforce simp: span_ok_def list_all_iff)
qed

lemma sg_inv_new:
  assumes "0 \<le> dur"
  shows "sg_inv dur u (Suc k) (new_subgroup (k, ex, ey, ez, u ! k))"
  using assms by (simp add: sg_inv_def new_subgroup_def)

lemma sg_inv_append:
  assumes inv: "sg_inv (max_lightning_duration args) u k sg"
    and acc: "subgroup_accepts args sg (k, ex, ey, ez, u ! k)"
    and mono: "\<And>j. j < k \<Longrightarrow> u ! j \<le> u ! k"
  shows "sg_inv (max_lightning_duration args) u (Suc k) (append_event sg (k, ex, ey, ez, u ! k))"
proof -
  let ?is = "sg_indices sg"
  have ne: "?is \<noteq> []" and ux: "sg_unix sg = map (\<lambda>j. u ! j) ?is"
    using inv by (auto simp: sg_inv_def)
  have hdu: "hd (sg_unix sg) = u ! hd ?is" using ne ux by (simp add: hd_map)
  have "hd ?is \<in> set ?is" using ne by simp
  then have "hd ?is < k" using inv by (auto simp: sg_inv_def list_all_iff)
  then have lo: "u ! hd ?is \<le> u ! k" using mono by blast
  have hi: "u ! k - u ! hd ?is \<le> max_lightning_duration args"
    using acc hdu by (simp add: subgroup_accepts_def event_unix_of_def Let_def)
  show ?thesis
    using inv ne ux lo hi
    by (auto simp: sg_inv_def append_event_def list_all_iff less_Suc_eq)
qed

lemma attach_inv:
  assumes "attach args (k, ex, ey, ez, u ! k) sgs = Some sgs'"
    and "\<forall>sg \<in> set sgs. sg_inv (max_lightning_duration args) u k sg"
    and "\<And>j. j < k \<Longrightarrow> u ! j \<le> u ! k"
  shows "\<forall>sg \<in> set sgs'. sg_inv (max_lightning_duration args) u (Suc k) sg"
  using assms(1,2)
proof (induction sgs arbitrary: sgs')
  case Nil
  then show ?case by simp
next
  case (Cons sg sgs)
  show ?case
  proof (cases "subgroup_accepts args sg (k, ex, ey, ez, u ! k)")
    case True
    then have "sgs' = append_event sg (k, ex, ey, ez, u ! k) # sgs" using Cons.prems by simp
    moreover have "sg_inv (max_lightning_duration args) u (Suc k) (append_event sg (k, ex, ey, ez, u ! k))"
      using sg_inv_append[OF _ True assms(3)] Cons.prems(2) by simp
    ultimately show ?thesis using Cons.prems(2) sg_inv_mono[of _ u k _ "Suc k"] by auto
  next
    case False
    then obtain r where r: "attach args (k, ex, ey, ez, u ! k) sgs = Some r" "sgs' = sg # r"
      using Cons.prems by auto
    then have "\<forall>sg \<in> set r. sg_inv (max_lightning_duration args) u (Suc k) sg"
      using Cons.IH Cons.prems(2) by simp
    then show ?thesis using r Cons.prems(2) sg_inv_mono[of _ u k _ "Suc k"] by auto
  qed
qed

lemma event_step_inv:
  assumes dur: "0 \<le> max_lightning_duration args"
    and k: "k < length u"
    and mono: "\<And>j. j < k \<Longrightarrow> u ! j \<le> u ! k"
    and st: "\<forall>sg \<in> set sgs. sg_inv (max_lightning_duration args) u k sg"
    and em: "\<forall>c \<in> set strikes. \<exists>js. c = map (\<lambda>idx. gi ! idx) js \<and> span_ok (max_lightning_duration args) u js"
    and step: "event_step args gi (strikes, sgs) (k, ex, ey, ez, u ! k) = (strikes', sgs')"
  shows "(\<forall>sg \<in> set sgs'. sg_inv (max_lightning_duration args) u (Suc k) sg)
       \<and> (\<forall>c \<in> set strikes'. \<exists>js. c = map (\<lambda>idx. gi ! idx) js \<and> span_ok (max_lightning_duration args) u js)"
proof -
  let ?d = "max_lightning_duration args"
  let ?ev = "(k, ex, ey, ez, u ! k)"
  let ?open = "filter (\<lambda>sg. event_unix_of ?ev - hd (sg_unix sg) \<le> ?d) sgs"
  have open_inv: "\<forall>sg \<in> set ?open. sg_inv ?d u k sg" using st by simp
  have sgs': "sgs' = (case attach args ?ev ?open of Some r \<Rightarrow> r | None \<Rightarrow> ?open @ [new_subgroup ?ev])"
    using step by (simp add: event_step_def Let_def)
  have 1: "\<forall>sg \<in> set sgs'. sg_inv ?d u (Suc k) sg"
  proof (cases "attach args ?ev ?open")
    case None
    then show ?thesis using sgs' open_inv sg_inv_new[OF dur, of u k] sg_inv_mono[of ?d u k _ "Suc k"]
      by auto
  next
    case (Some r)
    then show ?thesis using sgs' attach_inv[OF Some open_inv mono] by simp
  qed
  have "strikes' = strikes @ map (cluster_of gi)
      (filter (\<lambda>sg. event_unix_of ?ev - hd (sg_unix sg) > ?d \<and> real (length (sg_indices sg)) \<ge> min_pts args) sgs)"
    using step by (simp add: event_step_def Let_def)
  moreover have "\<exists>js. cluster_of gi sg = map (\<lambda>idx. gi ! idx) js \<and> span_ok ?d u js" if "sg \<in> set sgs" for sg
    using sg_inv_span[of ?d u k sg] st that k by (auto simp: cluster_of_def)
  ultimately have 2: "\<forall>c \<in> set strikes'. \<exists>js. c = map (\<lambda>idx. gi ! idx) js \<and> span_ok ?d u js"
    using em by auto
  show ?thesis using 1 2 by simp
qed

lemma foldl_events_inv:
  assumes dur: "0 \<le> max_lightning_duration args"
    and srt: "sorted u"
    and len: "length xv = length u"
    and k: "k \<le> length u"
    and res: "foldl (event_step args gi) ([], [])
                (map (\<lambda>j. (j, xv ! j, yv ! j, zv ! j, u ! j)) [0..<k]) = (strikes, sgs)"
  shows "(\<forall>sg \<in> set sgs. sg_inv (max_lightning_duration args) u k sg)
       \<and> (\<forall>c \<in> set strikes. \<exists>js. c = map (\<lambda>idx. gi ! idx) js \<and> span_ok (max_lightning_duration args) u js)"
  using k res
proof (induction k arbitrary: strikes sgs)
  case 0
  then show ?case by simp
next
  case (Suc k)
  obtain s0 g0 where prev: "foldl (event_step args gi) ([], [])
                (map (\<lambda>j. (j, xv ! j, yv ! j, zv ! j, u ! j)) [0..<k]) = (s0, g0)"
    by (cases "foldl (event_step args gi) ([], [])
                (map (\<lambda>j. (j, xv ! j, yv ! j, zv ! j, u ! j)) [0..<k])")
  have ih: "(\<forall>sg \<in> set g0. sg_inv (max_lightning_duration args) u k sg)
       \<and> (\<forall>c \<in> set s0. \<exists>js. c = map (\<lambda>idx. gi ! idx) js \<and> span_ok (max_lightning_duration args) u js)"
    using Suc.IH[OF _ prev] Suc.prems(1) by simp
  have step: "event_step args gi (s0, g0) (k, xv ! k, yv ! k, zv ! k, u ! k) = (strikes, sgs)"
    using Suc.prems(2) prev by simp
  have mono: "\<And>j. j < k \<Longrightarrow> u ! j \<le> u ! k"
    using srt Suc.prems(1) by (simp add: sorted_nth_mono)
  show ?case
    using event_step_inv[OF dur _ mono _ _ step] ih Suc.prems(1) by simp
qed

lemma scan_group_span:
  assumes dur: "0 \<le> max_lightning_duration args"
    and srt: "sorted u"
    and len: "length xv = length u"
    and c: "c \<in> set (scan_group args gi xv yv zv u)"
  shows "\<exists>js. c = map (\<lambda>idx. gi ! idx) js \<and> span_ok (max_lightning_duration args) u js"
proof -
  obtain strikes sgs where res: "foldl (event_step args gi) ([], [])
                (map (\<lambda>j. (j, xv ! j, yv ! j, zv ! j, u ! j)) [0..<length u]) = (strikes, sgs)"
    by (cases "foldl (event_step args gi) ([], [])
                (map (\<lambda>j. (j, xv ! j, yv ! j, zv ! j, u ! j)) [0..<length u])")
  from foldl_events_inv[OF dur srt len _ res]
  have inv: "\<forall>sg \<in> set sgs. sg_inv (max_lightning_duration args) u (length u) sg"
    and em: "\<forall>c \<in> set strikes. \<exists>js. c = map (\<lambda>idx. gi ! idx) js \<and> span_ok (max_lightning_duration args) u js"
    by simp_all
  have "c \<in> set strikes \<or> c \<in> set (finalize_remaining args gi sgs)"
    using c res len by (simp add: scan_group_def events_of_def)
  then show ?thesis
  proof
    assume "c \<in> set strikes"
    then show ?thesis using em by blast
  next
    assume "c \<in> set (finalize_remaining args gi sgs)"
    then obtain sg where "sg \<in> set sgs" "c = cluster_of gi sg"
      by (auto simp: finalize_remaining_def)
    then show ?thesis using sg_inv_span[of _ u "length u" sg] inv by (auto simp: cluster_of_def)
  qed
qed


lemma sorted_take_rows:
  assumes "sorted (xs :: real list)" "sorted_wrt (<) is" "\<forall>i \<in> set is. i < length xs"
  shows "sorted (map (\<lambda>i. xs ! i) is)"
  using assms(2,3)
proof (induction "is")
  case Nil
  then show ?case by simp
next
  case (Cons i "is")
  have "xs ! i \<le> xs ! j" if "j \<in> set is" for j
    using Cons.prems that assms(1) by (auto intro!: sorted_nth_mono)
  then show ?case using Cons by auto
qed

lemma where_group_sorted: "sorted_wrt (<) (where_group gids g)"
  by (simp add: where_group_def sorted_wrt_filter)

lemma span_ok_global:
  assumes "span_ok dur (map (\<lambda>i. au ! i) gi) js" "\<forall>i \<in> set gi. i < length au"
  shows "span_ok dur au (map (\<lambda>idx. gi ! idx) js)"
proof -
  let ?uv = "map (\<lambda>i. au ! i) gi"
  have all: "\<forall>a \<in> set js. a < length ?uv \<and> (\<forall>b \<in> set js. ?uv ! a - ?uv ! b \<le> dur)"
    using assms(1) unfolding span_ok_def list_all_iff .
  have j: "a < length gi" if "a \<in> set js" for a
    using all that by auto
  have "au ! (gi ! a) - au ! (gi ! b) \<le> dur" if "a \<in> set js" "b \<in> set js" for a b
  proof -
    have "?uv ! a - ?uv ! b \<le> dur" using all that by blast
    then show ?thesis using j[OF that(1)] j[OF that(2)] by simp
  qed
  moreover have "gi ! a < length au" if "a \<in> set js" for a
    using j[OF that] assms(2) by simp
  ultimately show ?thesis by (auto simp: span_ok_def list_all_iff)
qed

lemma process_group_span:
  assumes dur: "0 \<le> max_lightning_duration args"
    and srt: "sorted (all_unix_values args)"
    and res: "process_group args g = Inr strikes"
    and c: "c \<in> set strikes"
  shows "span_ok (max_lightning_duration args) (all_unix_values args) c"
proof -
  let ?gi = "where_group (group_ids args) g"
  let ?au = "all_unix_values args"
  have ns: "\<not> real (length ?gi) < min_pts args"
    using res c by (auto simp: process_group_def Let_def split: if_splits)
  then obtain xv yv zv uv where
    xv: "take_rows (all_x_values args) ?gi = Inr xv" and
    uv: "take_rows ?au ?gi = Inr uv" and
    st: "strikes = scan_group args ?gi xv yv zv uv"
    using res by (auto simp: process_group_def Let_def split: if_splits sum.splits)
  have rng: "\<forall>i \<in> set ?gi. i < length ?au" and uv': "uv = map (\<lambda>i. ?au ! i) ?gi"
    using uv by (auto simp: take_rows_def list_all_iff split: if_splits)
  have len: "length xv = length uv"
    using xv uv' by (auto simp: take_rows_def split: if_splits)
  have "sorted uv" unfolding uv' by (rule sorted_take_rows[OF srt where_group_sorted rng])
  from scan_group_span[OF dur this len] c st
  obtain js where "c = map (\<lambda>idx. ?gi ! idx) js" "span_ok (max_lightning_duration args) uv js"
    by blast
  then show ?thesis using span_ok_global[of _ ?au ?gi js] rng uv' by simp
qed

lemma group_loop_span:
  assumes dur: "0 \<le> max_lightning_duration args"
    and srt: "sorted (all_unix_values args)"
    and res: "group_loop args gs acc = Inr strikes"
    and acc: "\<forall>c \<in> set acc. span_ok (max_lightning_duration args) (all_unix_values args) c"
  shows "\<forall>c \<in> set strikes. span_ok (max_lightning_duration args) (all_unix_values args) c"
  using res acc
proof (induction gs arbitrary: acc)
  case Nil
  then show ?case by simp
next
  case (Cons g gs)
  then obtain r where r: "process_group args g = Inr r" "group_loop args gs (acc @ r) = Inr strikes"
    by (auto split: sum.splits)
  have "\<forall>c \<in> set (acc @ r). span_ok (max_lightning_duration args) (all_unix_values args) c"
    using Cons.prems(2) process_group_span[OF dur srt r(1)] by auto
  then show ?case using Cons.IH[OF r(2)] by blast
qed

section \<open>Clusters have no repeated index\<close>

lemma sg_ascending_mono: "sg_ascending k sg \<Longrightarrow> k \<le> k' \<Longrightarrow> sg_ascending k' sg"
  by (auto simp: sg_ascending_def list_all_iff)

lemma sg_ascending_new: "sg_ascending (Suc k) (new_subgroup (k, ex, ey, ez, eu))"
  by (simp add: sg_ascending_def new_subgroup_def)

lemma sg_ascending_append:
  "sg_ascending k sg \<Longrightarrow> sg_ascending (Suc k) (append_event sg (k, ex, ey, ez, eu))"
  by (auto simp: sg_ascending_def append_event_def list_all_iff sorted_wrt_append)

lemma attach_ascending:
  assumes "attach args (k, ex, ey, ez, eu) sgs = Some sgs'"
    and "\<forall>sg \<in> set sgs. sg_ascending k sg"
  shows "\<forall>sg \<in> set sgs'. sg_ascending (Suc k) sg"
  using assms
proof (induction sgs arbitrary: sgs')
  case Nil
  then show ?case by simp
next
  case (Cons sg sgs)
  show ?case
  proof (cases "subgroup_accepts args sg (k, ex, ey, ez, eu)")
    case True
    then have "sgs' = append_event sg (k, ex, ey, ez, eu) # sgs" using Cons.prems by simp
    then show ?thesis
      using Cons.prems(2) sg_ascending_append[of k sg] sg_ascending_mono[of k _ "Suc k"] by auto
  next
    case False
    then obtain r where r: "attach args (k, ex, ey, ez, eu) sgs = Some r" "sgs' = sg # r"
      using Cons.prems by auto
    then have "\<forall>sg \<in> set r. sg_ascending (Suc k) sg"
      using Cons.IH Cons.prems(2) by simp
    then show ?thesis using r Cons.prems(2) sg_ascending_mono[of k _ "Suc k"] by auto
  qed
qed

lemma sg_ascending_cluster:
  assumes "sg_ascending k sg" "k \<le> length gi" "distinct gi"
  shows "distinct (cluster_of gi sg)"
proof -
  have d: "distinct (sg_indices sg)"
    using assms(1) by (simp add: sg_ascending_def strict_sorted_iff)
  have "\<forall>j \<in> set (sg_indices sg). j < length gi"
    using assms(1,2) by (auto simp: sg_ascending_def list_all_iff)
  then have "inj_on (\<lambda>idx. gi ! idx) (set (sg_indices sg))"
    using assms(3) by (auto simp: inj_on_def nth_eq_iff_index_eq)
  then show ?thesis using d by (simp add: cluster_of_def distinct_map)
qed

lemma event_step_ascending:
  assumes k: "k < length gi" and dg: "distinct gi"
    and st: "\<forall>sg \<in> set sgs. sg_ascending k sg"
    and em: "\<forall>c \<in> set strikes. distinct c"
    and step: "event_step args gi (strikes, sgs) (k, ex, ey, ez, eu) = (strikes', sgs')"
  shows "(\<forall>sg \<in> set sgs'. sg_ascending (Suc k) sg) \<and> (\<forall>c \<in> set strikes'. distinct c)"
proof -
  let ?d = "max_lightning_duration args"
  let ?ev = "(k, ex, ey, ez, eu)"
  let ?open = "filter (\<lambda>sg. event_unix_of ?ev - hd (sg_unix sg) \<le> ?d) sgs"
  have open_inv: "\<forall>sg \<in> set ?open. sg_ascending k sg" using st by simp
  have sgs': "sgs' = (case attach args ?ev ?open of Some r \<Rightarrow> r | None \<Rightarrow> ?open @ [new_subgroup ?ev])"
    using step by (simp add: event_step_def Let_def)
  have 1: "\<forall>sg \<in> set sgs'. sg_ascending (Suc k) sg"
  proof (cases "attach args ?ev ?open")
    case None
    then show ?thesis
      using sgs' open_inv sg_ascending_new[of k ex ey ez eu] sg_ascending_mono[of k _ "Suc k"]
      by auto
  next
    case (Some r)
    then show ?thesis using sgs' attach_ascending[OF Some open_inv] by simp
  qed
  have "strikes' = strikes @ map (cluster_of gi)
      (filter (\<lambda>sg. event_unix_of ?ev - hd (sg_unix sg) > ?d \<and> real (length (sg_indices sg)) \<ge> min_pts args) sgs)"
    using step by (simp add: event_step_def Let_def)
  moreover have "distinct (cluster_of gi sg)" if "sg \<in> set sgs" for sg
    using sg_ascending_cluster[of k sg gi] st that k dg by simp
  ultimately have 2: "\<forall>c \<in> set strikes'. distinct c" using em by auto
  show ?thesis using 1 2 by simp
qed

lemma foldl_events_ascending:
  assumes dg: "distinct gi" and k: "k \<le> length gi"
    and res: "foldl (event_step args gi) ([], [])
                (map (\<lambda>j. (j, xv ! j, yv ! j, zv ! j, u ! j)) [0..<k]) = (strikes, sgs)"
  shows "(\<forall>sg \<in> set sgs. sg_ascending k sg) \<and> (\<forall>c \<in> set strikes. distinct c)"
  using k res
proof (induction k arbitrary: strikes sgs)
  case 0
  then show ?case by simp
next
  case (Suc k)
  obtain s0 g0 where prev: "foldl (event_step args gi) ([], [])
                (map (\<lambda>j. (j, xv ! j, yv ! j, zv ! j, u ! j)) [0..<k]) = (s0, g0)"
    by (cases "foldl (event_step args gi) ([], [])
                (map (\<lambda>j. (j, xv ! j, yv ! j, zv ! j, u ! j)) [0..<k])")
  have ih: "(\<forall>sg \<in> set g0. sg_ascending k sg) \<and> (\<forall>c \<in> set s0. distinct c)"
    using Suc.IH[OF _ prev] Suc.prems(1) by simp
  have step: "event_step args gi (s0, g0) (k, xv ! k, yv ! k, zv ! k, u ! k) = (strikes, sgs)"
    using Suc.prems(2) prev by simp
  show ?case
    using event_step_ascending[OF _ dg _ _ step] ih Suc.prems(1) by simp
qed

lemma scan_group_distinct:
  assumes dg: "distinct gi" and len: "length xv = length gi"
    and c: "c \<in> set (scan_group args gi xv yv zv u)"
  shows "distinct c"
proof -
  obtain strikes sgs where res: "foldl (event_step args gi) ([], [])
                (map (\<lambda>j. (j, xv ! j, yv ! j, zv ! j, u ! j)) [0..<length gi]) = (strikes, sgs)"
    by (cases "foldl (event_step args gi) ([], [])
                (map (\<lambda>j. (j, xv ! j, yv ! j, zv ! j, u ! j)) [0..<length gi])")
  from foldl_events_ascending[OF dg _ res]
  have inv: "\<forall>sg \<in> set sgs. sg_ascending (length gi) sg"
    and em: "\<forall>c \<in> set strikes. distinct c"
    by simp_all
  have "c \<in> set strikes \<or> c \<in> set (finalize_remaining args gi sgs)"
    using c res len by (simp add: scan_group_def events_of_def)
  then show ?thesis
  proof
    assume "c \<in> set strikes"
    then show ?thesis using em by blast
  next
    assume "c \<in> set (finalize_remaining args gi sgs)"
    then obtain sg where "sg \<in> set sgs" "c = cluster_of gi sg"
      by (auto simp: finalize_remaining_def)
    then show ?thesis using sg_ascending_cluster[of "length gi" sg gi] inv dg by simp
  qed
qed

lemma where_group_distinct: "distinct (where_group gids g)"
  by (simp add: where_group_def)

lemma process_group_distinct:
  assumes res: "process_group args g = Inr strikes" and c: "c \<in> set strikes"
  shows "distinct c"
proof -
  let ?gi = "where_group (group_ids args) g"
  have ns: "\<not> real (length ?gi) < min_pts args"
    using res c by (auto simp: process_group_def Let_def split: if_splits)
  then obtain xv yv zv uv where
    xv: "take_rows (all_x_values args) ?gi = Inr xv" and
    st: "strikes = scan_group args ?gi xv yv zv uv"
    using res by (auto simp: process_group_def Let_def split: if_splits sum.splits)
  have len: "length xv = length ?gi"
    using xv by (auto simp: take_rows_def split: if_splits)
  show ?thesis using scan_group_distinct[OF where_group_distinct len] c st by blast
qed

lemma group_loop_distinct:
  assumes res: "group_loop args gs acc = Inr strikes"
    and acc: "\<forall>c \<in> set acc. distinct c"
  shows "\<forall>c \<in> set strikes. distinct c"
  using res acc
proof (induction gs arbitrary: acc)
  case Nil
  then show ?case by simp
next
  case (Cons g gs)
  then obtain r where r: "process_group args g = Inr r" "group_loop args gs (acc @ r) = Inr strikes"
    by (auto split: sum.splits)
  have "\<forall>c \<in> set (acc @ r). distinct c"
    using Cons.prems(2) process_group_distinct[OF r(1)] by auto
  then show ?case using Cons.IH[OF r(2)] by blast
qed

lemma clusters_distinct:
  assumes "priv_bucket_dataframe_lightnings mx df thr dur dst maxs mins mp = Inr clusters"
    and "c \<in> set clusters"
  shows "distinct c"
  using assms group_loop_distinct[of _ _ "[]" clusters]
  by (simp add: priv_bucket_dataframe_lightnings_def bucket_sorted_groups)

lemma unique_idx_list_distinct: "distinct (unique_idx_list corr)"
  by (simp add: unique_idx_list_def)

section \<open>The Chain Builder loop in closed form\<close>

lemma argmin_less: "xs \<noteq> [] \<Longrightarrow> argmin xs < length xs"
  by (induction xs rule: argmin.induct) (auto simp: Let_def)

lemma argmin_least: "j < length xs \<Longrightarrow> xs ! argmin xs \<le> xs ! j"
proof (induction xs arbitrary: j rule: argmin.induct)
  case 1
  then show ?case by simp
next
  case (2 v)
  then show ?case by simp
next
  case (3 v w ws)
  let ?k = "argmin (w # ws)"
  show ?case
  proof (cases j)
    case 0
    then show ?thesis by (auto simp: Let_def)
  next
    case (Suc j')
    then have "(w # ws) ! ?k \<le> (w # ws) ! j'" using 3 by simp
    then show ?thesis using Suc by (auto simp: Let_def)
  qed
qed

lemma argmin_first: "j < argmin xs \<Longrightarrow> xs ! argmin xs < xs ! j"
proof (induction xs arbitrary: j rule: argmin.induct)
  case 1
  then show ?case by simp
next
  case (2 v)
  then show ?case by simp
next
  case (3 v w ws)
  let ?k = "argmin (w # ws)"
  have nz: "\<not> v \<le> (w # ws) ! ?k" using 3(2) by (auto simp: Let_def split: if_splits)
  then have a: "argmin (v # w # ws) = Suc ?k" by (simp add: Let_def)
  show ?case
  proof (cases j)
    case 0
    then show ?thesis using nz a by simp
  next
    case (Suc j')
    then have "j' < ?k" using 3(2) a by simp
    then have "(w # ws) ! ?k < (w # ws) ! j'" using 3(1) by simp
    then show ?thesis using Suc a by simp
  qed
qed

lemma valid_indices_set:
  "set (valid_indices ps rows i) = {k. k < i \<and> mask ps (rows ! k) (rows ! i)}"
  by (auto simp: valid_indices_def)

lemma parent_position_Some:
  assumes "parent_position ps rows i = Some k"
  shows "k < i \<and> mask ps (rows ! k) (rows ! i)"
proof -
  let ?v = "valid_indices ps rows i"
  let ?ds = "map (\<lambda>k. distances_squared (rows ! k) (rows ! i)) ?v"
  have ne: "?v \<noteq> []" and k: "k = ?v ! argmin ?ds"
    using assms by (auto simp: parent_position_def Let_def split: if_splits)
  have "argmin ?ds < length ?v" using argmin_less[of ?ds] ne by simp
  then have "k \<in> set ?v" using k by simp
  then show ?thesis by (simp add: valid_indices_set)
qed

lemma stitch_fold:
  assumes "n \<le> length strike"
  shows "foldl (stitch_step ps strike rows) ([], []) [0..<n]
       = (take n strike, concat (map (edge_at ps strike rows) [0..<n]))"
  using assms
proof (induction n)
  case 0
  then show ?case by simp
next
  case (Suc n)
  have ih: "foldl (stitch_step ps strike rows) ([], []) [0..<n]
       = (take n strike, concat (map (edge_at ps strike rows) [0..<n]))"
    using Suc by simp
  have len: "length (take n strike) = n" using Suc.prems by simp
  have tk: "take n strike @ [strike ! n] = take (Suc n) strike"
    using Suc.prems by (simp add: take_Suc_conv_app_nth)
  have step: "stitch_step ps strike rows (take n strike, cs) n
      = (take (Suc n) strike, cs @ edge_at ps strike rows n)" for cs
  proof (cases "parent_position ps rows n")
    case None
    then show ?thesis using len tk
      by (auto simp: stitch_step_def edge_at_def parent_position_def Let_def split: if_splits)
  next
    case (Some k)
    then have kn: "k < n" using parent_position_Some by blast
    have "0 < n" "valid_indices ps rows n \<noteq> []"
      and k: "k = valid_indices ps rows n ! argmin (map (\<lambda>k. distances_squared (rows ! k) (rows ! n)) (valid_indices ps rows n))"
      using Some by (auto simp: parent_position_def Let_def split: if_splits)
    then show ?thesis using len tk kn Some Suc.prems
      by (auto simp: stitch_step_def edge_at_def Let_def)
  qed
  show ?case using ih step by simp
qed

lemma build_correlations_edges:
  "build_correlations ps strike rows = concat (map (edge_at ps strike rows) [0..<length strike])"
  by (simp add: build_correlations_def stitch_fold)

lemma build_correlations_mem:
  assumes "(p, c) \<in> set (build_correlations ps strike rows)"
  shows "\<exists>k i. k < i \<and> i < length strike \<and> p = strike ! k \<and> c = strike ! i
            \<and> mask ps (rows ! k) (rows ! i)"
proof -
  from assms obtain i where i: "i < length strike" "(p, c) \<in> set (edge_at ps strike rows i)"
    by (auto simp: build_correlations_edges)
  then obtain k where k: "parent_position ps rows i = Some k" "p = strike ! k" "c = strike ! i"
    by (cases "parent_position ps rows i") (auto simp: edge_at_def)
  then show ?thesis using parent_position_Some[OF k(1)] i(1) by blast
qed

lemma build_correlations_children:
  "map snd (build_correlations ps strike rows)
     = map (\<lambda>i. strike ! i) (filter (\<lambda>i. parent_position ps rows i \<noteq> None) [0..<length strike])"
proof -
  have "map snd (concat (map (edge_at ps strike rows) is))
      = map (\<lambda>i. strike ! i) (filter (\<lambda>i. parent_position ps rows i \<noteq> None) is)" for "is"
    by (induction "is") (auto simp: edge_at_def split: option.splits)
  then show ?thesis by (simp add: build_correlations_edges)
qed

lemma build_correlations_distinct:
  assumes "distinct strike"
  shows "distinct (map snd (build_correlations ps strike rows))"
proof -
  have "distinct (map (\<lambda>i. strike ! i) [0..<length strike])"
    using assms by (simp add: map_nth)
  then have "distinct (map (\<lambda>i. strike ! i) (filter (\<lambda>i. parent_position ps rows i \<noteq> None) [0..<length strike]))"
    by (rule distinct_map_filter)
  then show ?thesis by (simp add: build_correlations_children)
qed

lemma filter_chain_subset:
  "set (filter_correlations_by_chain_size cs m) \<subseteq> set cs"
  by (auto simp: filter_correlations_by_chain_size_def Let_def)

lemma filter_chain_distinct:
  "distinct (map snd cs) \<Longrightarrow> distinct (map snd (filter_correlations_by_chain_size cs m))"
  by (simp add: filter_correlations_by_chain_size_def Let_def distinct_map_filter)


lemma loc_keys_length: "loc_keys events strike = Inr keys \<Longrightarrow> length keys = length strike"
  by (induction strike arbitrary: keys) (auto split: sum.splits)

lemma distinct_map_insort_key:
  "distinct (map g (insort_key f a xs)) = (g a \<notin> g ` set xs \<and> distinct (map g xs))"
  by (induction xs) (auto simp: set_insort_key)

lemma distinct_map_sort_key:
  "distinct (map g (sort_key f xs)) = distinct (map g xs)"
  by (induction xs) (simp_all add: distinct_map_insort_key)

lemma sorted_by_loc_time_perm:
  assumes "sorted_by_loc_time events strike = Inr so"
  shows "set so = set strike \<and> length so = length strike \<and> (distinct strike \<longrightarrow> distinct so)"
proof -
  from assms obtain keys where k: "loc_keys events strike = Inr keys"
    and so: "so = map fst (sort_key (\<lambda>(idx, k). scalar_of k) (zip strike keys))"
    by (auto simp: sorted_by_loc_time_def split: sum.splits if_splits)
  have len: "length keys = length strike" by (rule loc_keys_length[OF k])
  have z: "map fst (zip strike keys) = strike" using len by simp
  have "set so = fst ` set (zip strike keys)" unfolding so by simp
  also have "\<dots> = set (map fst (zip strike keys))" by simp
  finally have 1: "set so = set strike" using z by simp
  have 2: "length so = length strike" unfolding so using len by simp
  have "distinct so = distinct (map fst (zip strike keys))"
    unfolding so by (rule distinct_map_sort_key)
  then have 3: "distinct strike \<longrightarrow> distinct so" using z by simp
  show ?thesis using 1 2 3 by simp
qed

lemma take_rows_Inr:
  assumes "take_rows arr idxs = Inr rows"
  shows "rows = map (\<lambda>i. arr ! i) idxs \<and> (\<forall>i \<in> set idxs. i < length arr)"
  using assms by (auto simp: take_rows_def list_all_iff split: if_splits)

lemma stitch_lightning_strike_Inr:
  assumes "stitch_lightning_strike strike events ps = Inr chain"
  obtains so where "sorted_by_loc_time events strike = Inr so"
    and "\<forall>i \<in> set so. i < length events"
    and "chain = filter_correlations_by_chain_size
            (build_correlations ps so (map (\<lambda>i. events ! i) so))
            (get_param ps ''min_lightning_points'' 300)"
proof -
  from assms obtain so rows where so: "sorted_by_loc_time events strike = Inr so"
    and rows: "take_rows events so = Inr rows"
    and ch: "chain = filter_correlations_by_chain_size (build_correlations ps so rows)
            (get_param ps ''min_lightning_points'' 300)"
    by (auto simp: stitch_lightning_strike_def split: sum.splits)
  show ?thesis using that[OF so] take_rows_Inr[OF rows] ch by simp
qed

lemma stitch_edge:
  assumes "stitch_lightning_strike strike events ps = Inr chain" "(p, c) \<in> set chain"
  obtains so k i where "sorted_by_loc_time events strike = Inr so"
    and "k < i" "i < length so" "p = so ! k" "c = so ! i"
    and "p < length events" "c < length events"
    and "mask ps (events ! p) (events ! c)"
proof -
  from assms(1) obtain so where so: "sorted_by_loc_time events strike = Inr so"
    and rng: "\<forall>i \<in> set so. i < length events"
    and ch: "chain = filter_correlations_by_chain_size
            (build_correlations ps so (map (\<lambda>i. events ! i) so))
            (get_param ps ''min_lightning_points'' 300)"
    by (rule stitch_lightning_strike_Inr)
  have "(p, c) \<in> set (build_correlations ps so (map (\<lambda>i. events ! i) so))"
    using assms(2) ch filter_chain_subset by blast
  from build_correlations_mem[OF this]
  obtain k i where ki: "k < i" "i < length so" "p = so ! k" "c = so ! i"
    and m: "mask ps (map (\<lambda>i. events ! i) so ! k) (map (\<lambda>i. events ! i) so ! i)"
    by blast
  have "mask ps (events ! p) (events ! c)" using m ki by simp
  moreover have "p < length events" "c < length events" using rng ki by simp_all
  ultimately show ?thesis using that[OF so ki] by blast
qed

lemma floor_dt_squared_ge: "v \<le> floor_dt_squared v"
  by (simp add: floor_dt_squared_def)

lemma sqrt_le_of_square_le:
  fixes d2 m :: real
  assumes "d2 \<le> m\<^sup>2" "0 \<le> m"
  shows "sqrt d2 \<le> m"
proof -
  have "sqrt d2 \<le> sqrt (m\<^sup>2)" using assms(1) by (rule real_sqrt_le_mono)
  then show ?thesis using assms(2) by simp
qed

lemma square_le_sqrt:
  fixes d2 m :: real
  assumes "m\<^sup>2 \<le> d2" "0 \<le> m"
  shows "m \<le> sqrt d2"
proof -
  have "sqrt (m\<^sup>2) \<le> sqrt d2" using assms(1) by (rule real_sqrt_le_mono)
  then show ?thesis using assms(2) by simp
qed

lemma distances_squared_nonneg: "0 \<le> distances_squared pre cur"
  by (simp add: distances_squared_def)

lemma pair_speed_squared:
  assumes "1 / 100000 \<le> (time_unix cur - time_unix pre) * (time_unix cur - time_unix pre)"
  shows "speeds_squared pre cur = (pair_speed pre cur)\<^sup>2"
proof -
  let ?dt = "time_unix cur - time_unix pre"
  have "dt_squared pre cur = ?dt * ?dt" using assms by (simp add: dt_squared_def floor_dt_squared_def)
  moreover have "(sqrt (distances_squared pre cur))\<^sup>2 = distances_squared pre cur"
    using distances_squared_nonneg by simp
  ultimately show ?thesis
    by (simp add: speeds_squared_def pair_speed_def euclid_distance_def power_divide power2_eq_square)
qed

lemma pair_speed_nonneg: "0 \<le> pair_speed pre cur"
  by (simp add: pair_speed_def euclid_distance_def distances_squared_nonneg)

section \<open>Parent selection and processing order\<close>

lemma valid_indices_ascending: "sorted_wrt (<) (valid_indices ps rows i)"
  by (simp add: valid_indices_def sorted_wrt_filter)

lemma parent_position_least:
  assumes "parent_position ps rows i = Some k"
    and "k' < i" and "mask ps (rows ! k') (rows ! i)"
  shows "distances_squared (rows ! k) (rows ! i) \<le> distances_squared (rows ! k') (rows ! i)
       \<and> (k' < k \<longrightarrow> distances_squared (rows ! k) (rows ! i) < distances_squared (rows ! k') (rows ! i))"
proof -
  let ?v = "valid_indices ps rows i"
  let ?d = "\<lambda>k. distances_squared (rows ! k) (rows ! i)"
  let ?a = "argmin (map ?d ?v)"
  have ne: "?v \<noteq> []" and k: "k = ?v ! ?a"
    using assms(1) by (auto simp: parent_position_def Let_def split: if_splits)
  have a: "?a < length ?v" using argmin_less[of "map ?d ?v"] ne by simp
  have "k' \<in> set ?v" using assms(2,3) by (simp add: valid_indices_set)
  then obtain j where j: "j < length ?v" "?v ! j = k'" by (auto simp: in_set_conv_nth)
  have "map ?d ?v ! ?a \<le> map ?d ?v ! j" using argmin_least[of j "map ?d ?v"] j(1) by simp
  then have 1: "?d k \<le> ?d k'" using a j k by simp
  have 2: "?d k < ?d k'" if "k' < k"
  proof -
    have "j < ?a"
    proof (rule ccontr)
      assume "\<not> j < ?a"
      then have "?a = j \<or> ?a < j" by auto
      then have "?v ! ?a \<le> ?v ! j"
        using sorted_wrt_nth_less[OF valid_indices_ascending, of ?a j ps rows i] j(1) by auto
      then show False using that k j(2) by simp
    qed
    then have "map ?d ?v ! ?a < map ?d ?v ! j" by (rule argmin_first)
    then show ?thesis using a j k by simp
  qed
  show ?thesis using 1 2 by blast
qed

lemma parent_position_None:
  "parent_position ps rows i = None \<longleftrightarrow> \<not> (\<exists>k < i. mask ps (rows ! k) (rows ! i))"
proof -
  have "valid_indices ps rows i = [] \<longleftrightarrow> \<not> (\<exists>k < i. mask ps (rows ! k) (rows ! i))"
    by (auto simp: valid_indices_def filter_empty_conv)
  moreover have "i = 0 \<Longrightarrow> valid_indices ps rows i = []"
    by (simp add: valid_indices_def)
  ultimately show ?thesis
    by (cases "i = 0") (auto simp: parent_position_def Let_def)
qed

text \<open>When every row's label is its position, \<open>.loc\<close> reads the row at that position.\<close>

lemma filter_unique_key:
  "distinct (map f xs) \<Longrightarrow> i < length xs \<Longrightarrow> filter (\<lambda>r. f r = f (xs ! i)) xs = [xs ! i]"
proof (induction xs arbitrary: i)
  case Nil
  then show ?case by simp
next
  case (Cons x xs)
  show ?case
  proof (cases i)
    case 0
    have "f x \<notin> f ` set xs" using Cons.prems(1) by simp
    then have "\<And>r. r \<in> set xs \<Longrightarrow> f r \<noteq> f x"
      by (metis imageI)
    then have "filter (\<lambda>r. f r = f x) xs = []"
      by (simp add: filter_empty_conv)
    then show ?thesis using 0 by simp
  next
    case (Suc j)
    then have "xs ! j \<in> set xs" using Cons.prems by simp
    then have "f x \<noteq> f (xs ! j)" using Cons.prems(1) by auto
    then show ?thesis using Suc Cons by simp
  qed
qed

lemma loc_time_unix_positions:
  assumes "map label events = [0..<length events]" "idx < length events"
  shows "loc_time_unix events idx = Inr (Scalar (time_unix (events ! idx)))"
proof -
  have "distinct (map label events)" using assms(1) by simp
  moreover have "label (events ! idx) = idx"
    using assms by (metis add_0 nth_map nth_upt length_map)
  ultimately have "filter (\<lambda>r. label r = idx) events = [events ! idx]"
    using filter_unique_key[of label events idx] assms(2) by simp
  then show ?thesis by (simp add: loc_time_unix_def)
qed

lemma loc_time_unix_missing:
  assumes "map label events = [0..<length events]" "\<not> idx < length events"
  shows "loc_time_unix events idx = Inl KeyError"
proof -
  have "idx \<notin> set (map label events)" using assms by simp
  then have "filter (\<lambda>r. label r = idx) events = []"
    by (auto simp: filter_empty_conv)
  then show ?thesis by (simp add: loc_time_unix_def)
qed

lemma loc_keys_positions:
  assumes "map label events = [0..<length events]" "loc_keys events strike = Inr keys"
  shows "keys = map (\<lambda>idx. Scalar (time_unix (events ! idx))) strike
       \<and> (\<forall>idx \<in> set strike. idx < length events)"
  using assms(2)
proof (induction strike arbitrary: keys)
  case Nil
  then show ?case by simp
next
  case (Cons idx strike)
  have lt: "idx < length events"
    using Cons.prems loc_time_unix_missing[OF assms(1), of idx] by (auto split: sum.splits)
  then show ?case
    using Cons loc_time_unix_positions[OF assms(1) lt] by (auto split: sum.splits)
qed

lemma sorted_by_loc_time_ascending:
  assumes "map label events = [0..<length events]" "sorted_by_loc_time events strike = Inr so"
  shows "sorted (map (\<lambda>idx. time_unix (events ! idx)) so)"
proof -
  from assms(2) obtain keys where k: "loc_keys events strike = Inr keys"
    and so: "so = map fst (sort_key (\<lambda>(idx, k). scalar_of k) (zip strike keys))"
    by (auto simp: sorted_by_loc_time_def split: sum.splits if_splits)
  have keys: "keys = map (\<lambda>idx. Scalar (time_unix (events ! idx))) strike"
    using loc_keys_positions[OF assms(1) k] by simp
  let ?z = "sort_key (\<lambda>(idx, k). scalar_of k) (zip strike keys)"
  have "\<forall>(idx, k) \<in> set (zip strike keys). scalar_of k = time_unix (events ! idx)"
    unfolding keys by (auto simp: zip_map2 scalar_of_def zip_same)
  then have "\<forall>(idx, k) \<in> set ?z. scalar_of k = time_unix (events ! idx)" by simp
  then have "map (\<lambda>idx. time_unix (events ! idx)) (map fst ?z) = map (\<lambda>(idx, k). scalar_of k) ?z"
    by (auto simp: case_prod_beta)
  moreover have "sorted (map (\<lambda>(idx, k). scalar_of k) ?z)" by (rule sorted_sort_key)
  ultimately have "sorted (map (\<lambda>idx. time_unix (events ! idx)) (map fst ?z))" by (simp only:)
  then show ?thesis unfolding so .
qed

lemma takeWhile_position:
  "distinct xs \<Longrightarrow> i < length xs \<Longrightarrow> length (takeWhile (\<lambda>y. y \<noteq> xs ! i) xs) = i"
proof (induction xs arbitrary: i)
  case Nil
  then show ?case by simp
next
  case (Cons x xs)
  show ?case
  proof (cases i)
    case 0
    then show ?thesis by simp
  next
    case (Suc j)
    then have "xs ! j \<in> set xs" using Cons.prems by simp
    then have "x \<noteq> xs ! j" using Cons.prems by auto
    then show ?thesis using Suc Cons by simp
  qed
qed

lemma build_order_acyclic:
  assumes "distinct so"
    and "\<And>p c. (p, c) \<in> r \<Longrightarrow> \<exists>k i. k < i \<and> i < length so \<and> p = so ! k \<and> c = so ! i"
  shows "acyclic r"
proof -
  let ?pos = "\<lambda>x. length (takeWhile (\<lambda>y. y \<noteq> x) so)"
  have "?pos b < ?pos a" if "(a, b) \<in> r\<inverse>" for a b
  proof -
    from that have "(b, a) \<in> r" by simp
    from assms(2)[OF this] obtain k i where ki: "k < i" "i < length so" "b = so ! k" "a = so ! i"
      by blast
    then show ?thesis using takeWhile_position[OF assms(1)] by simp
  qed
  then have "acyclic (r\<inverse>)" by (rule acyclicI_order)
  then show ?thesis by simp
qed

section \<open>The Chain Validator computes connected components\<close>

subsection \<open>The adjacency dictionary\<close>

lemma map_of_setdefault_add:
  "map_of (setdefault_add g k v) u
     = (if u = k
        then Some (case map_of g k of None \<Rightarrow> [v] | Some s \<Rightarrow> if v \<in> set s then s else s @ [v])
        else map_of g u)"
  by (induction g k v rule: setdefault_add.induct) auto

lemma neighbours_setdefault_add:
  "set (neighbours (setdefault_add g k v) u)
     = (if u = k then insert v (set (neighbours g k)) else set (neighbours g u))"
  by (cases "map_of g k") (auto simp: neighbours_def map_of_setdefault_add)

lemma keys_setdefault_add: "map fst (setdefault_add g k v)
     = (if k \<in> set (map fst g) then map fst g else map fst g @ [k])"
  by (induction g k v rule: setdefault_add.induct) (auto simp: image_iff)

lemma edges_setdefault_add: "edges_of (setdefault_add g k v) = insert (k, v) (edges_of g)"
  by (auto simp: edges_of_def neighbours_setdefault_add split: if_splits)

lemma foldl_graph:
  "edges_of (foldl (\<lambda>g (parent, child). setdefault_add (setdefault_add g parent child) child parent) g cs)
     = edges_of g \<union> set cs \<union> (set cs)\<inverse>
   \<and> set (map fst (foldl (\<lambda>g (parent, child). setdefault_add (setdefault_add g parent child) child parent) g cs))
     = set (map fst g) \<union> fst ` set cs \<union> snd ` set cs"
proof (induction cs arbitrary: g)
  case Nil
  then show ?case by simp
next
  case (Cons a cs)
  obtain p c where a: "a = (p, c)" by (cases a)
  let ?g = "setdefault_add (setdefault_add g p c) c p"
  have e: "edges_of ?g = insert (c, p) (insert (p, c) (edges_of g))"
    by (simp add: edges_setdefault_add)
  have k: "set (map fst ?g) = insert c (insert p (set (map fst g)))"
    by (auto simp: keys_setdefault_add)
  show ?case
    using Cons.IH[of ?g] unfolding a e k by (simp add: insert_commute) blast
qed

lemma edges_build_graph: "edges_of (build_graph cs) = set cs \<union> (set cs)\<inverse>"
  using foldl_graph[of "[]" cs] by (simp add: build_graph_def edges_of_def neighbours_def)

lemma keys_build_graph: "set (map fst (build_graph cs)) = fst ` set cs \<union> snd ` set cs"
  using foldl_graph[of "[]" cs] by (simp add: build_graph_def)

subsection \<open>The traversal\<close>

lemma dfs_superset: "component \<union> set stack \<subseteq> dfs g stack component"
  by (induction g stack component rule: dfs.induct) auto

lemma dfs_subset: "dfs g stack component \<subseteq> component \<union> (edges_of g)\<^sup>* `` set stack"
proof (induction g stack component rule: dfs.induct)
  case (1 g component)
  then show ?case by simp
next
  case (2 g current stack component)
  show ?case
  proof (cases "current \<in> component")
    case True
    then show ?thesis using 2(2) by auto
  next
    case False
    have nb: "set (neighbours g current) \<subseteq> (edges_of g)\<^sup>* `` {current}"
      by (auto simp: edges_of_def)
    have "dfs g (rev (neighbours g current) @ stack) (insert current component)
        \<subseteq> insert current component \<union> (edges_of g)\<^sup>* `` set (rev (neighbours g current) @ stack)"
      using 2(1)[OF False] .
    also have "\<dots> \<subseteq> component \<union> (edges_of g)\<^sup>* `` set (current # stack)"
    proof -
      have "(edges_of g)\<^sup>* `` set (neighbours g current) \<subseteq> (edges_of g)\<^sup>* `` {current}"
        using nb by (auto intro: rtrancl_trans)
      then show ?thesis by auto
    qed
    finally show ?thesis using False by simp
  qed
qed

lemma dfs_closed:
  "u \<in> dfs g stack component \<Longrightarrow> u \<notin> component \<Longrightarrow>
   set (neighbours g u) \<subseteq> dfs g stack component"
proof (induction g stack component rule: dfs.induct)
  case (1 g component)
  then show ?case by simp
next
  case (2 g current stack component)
  show ?case
  proof (cases "current \<in> component")
    case True
    then show ?thesis using 2 by simp
  next
    case False
    let ?D = "dfs g (rev (neighbours g current) @ stack) (insert current component)"
    have D: "dfs g (current # stack) component = ?D" using False by simp
    show ?thesis
    proof (cases "u = current")
      case True
      have "set (neighbours g current) \<subseteq> ?D"
        using dfs_superset[of "insert current component" "rev (neighbours g current) @ stack" g] by auto
      then show ?thesis using True D by simp
    next
      case neq: False
      then have "u \<notin> insert current component" using 2(4) by simp
      then show ?thesis using 2(1)[OF False] 2(3) D by simp
    qed
  qed
qed

lemma dfs_component: "dfs g [v] {} = (edges_of g)\<^sup>* `` {v}"
proof
  show "dfs g [v] {} \<subseteq> (edges_of g)\<^sup>* `` {v}"
    using dfs_subset[of g "[v]" "{}"] by simp
  have "u \<in> dfs g [v] {}" if "(v, u) \<in> (edges_of g)\<^sup>*" for u
    using that
  proof (induction rule: rtrancl_induct)
    case base
    then show ?case using dfs_superset[of "{}" "[v]" g] by simp
  next
    case (step y z)
    then have "z \<in> set (neighbours g y)" by (simp add: edges_of_def)
    then show ?case using dfs_closed[OF step.IH, of ] by auto
  qed
  then show "(edges_of g)\<^sup>* `` {v} \<subseteq> dfs g [v] {}" by auto
qed


subsection \<open>The loop over the nodes\<close>

lemma sym_class:
  assumes "sym R" "v \<in> R\<^sup>* `` {k}"
  shows "R\<^sup>* `` {v} = R\<^sup>* `` {k}"
proof -
  have kv: "(k, v) \<in> R\<^sup>*" using assms(2) by simp
  have "sym (R\<^sup>*)" using assms(1) by (rule sym_rtrancl)
  then have vk: "(v, k) \<in> R\<^sup>*" using kv by (meson symD)
  show ?thesis using kv vk by (auto intro: rtrancl_trans)
qed

lemma component_step_classes:
  assumes s: "sym (edges_of g)"
  shows "component_step g m
           (\<Union>k \<in> set seen. (edges_of g)\<^sup>* `` {k},
            \<Union>k \<in> {k \<in> set seen. m \<le> real (card ((edges_of g)\<^sup>* `` {k}))}. (edges_of g)\<^sup>* `` {k})
           node
       = (\<Union>k \<in> set (seen @ [node]). (edges_of g)\<^sup>* `` {k},
          \<Union>k \<in> {k \<in> set (seen @ [node]). m \<le> real (card ((edges_of g)\<^sup>* `` {k}))}. (edges_of g)\<^sup>* `` {k})"
proof -
  let ?C = "\<lambda>k. (edges_of g)\<^sup>* `` {k}"
  let ?V = "\<lambda>ks. \<Union>k \<in> set ks. ?C k"
  let ?W = "\<lambda>ks. \<Union>k \<in> {k \<in> set ks. m \<le> real (card (?C k))}. ?C k"
  have V: "?V (seen @ [node]) = ?V seen \<union> ?C node" by auto
  have W: "?W (seen @ [node]) = (if m \<le> real (card (?C node)) then ?W seen \<union> ?C node else ?W seen)"
    by auto
  show ?thesis
  proof (cases "node \<in> ?V seen")
    case False
    then show ?thesis unfolding V W
      by (simp add: component_step_def dfs_component Let_def del: dfs.simps)
  next
    case True
    then obtain k where k: "k \<in> set seen" "node \<in> ?C k" by blast
    have eq: "?C node = ?C k" using sym_class[OF s k(2)] .
    have "?V seen \<union> ?C node = ?V seen" using k(1) eq by auto
    moreover have "?W seen \<union> ?C node = ?W seen" if "m \<le> real (card (?C node))"
      using k(1) eq that by auto
    ultimately show ?thesis using True unfolding V W
      by (simp add: component_step_def)
  qed
qed

lemma foldl_component_step:
  assumes s: "sym (edges_of g)"
  shows "foldl (component_step g m)
           (\<Union>k \<in> set seen. (edges_of g)\<^sup>* `` {k},
            \<Union>k \<in> {k \<in> set seen. m \<le> real (card ((edges_of g)\<^sup>* `` {k}))}. (edges_of g)\<^sup>* `` {k})
           nodes
       = (\<Union>k \<in> set (seen @ nodes). (edges_of g)\<^sup>* `` {k},
          \<Union>k \<in> {k \<in> set (seen @ nodes). m \<le> real (card ((edges_of g)\<^sup>* `` {k}))}. (edges_of g)\<^sup>* `` {k})"
proof (induction nodes arbitrary: seen)
  case Nil
  then show ?case by simp
next
  case (Cons node nodes)
  show ?case
    unfolding foldl_Cons component_step_classes[OF s] Cons.IH by simp
qed

lemma valid_nodes_of_classes:
  assumes s: "sym (edges_of g)"
  shows "valid_nodes_of g m
       = (\<Union>k \<in> {k \<in> set (map fst g). m \<le> real (card ((edges_of g)\<^sup>* `` {k}))}. (edges_of g)\<^sup>* `` {k})"
  using foldl_component_step[OF s, of m "[]" "map fst g"]
  by (simp add: valid_nodes_of_def)

lemma valid_node_iff:
  assumes s: "sym (edges_of g)" and v: "v \<in> set (map fst g)"
  shows "v \<in> valid_nodes_of g m \<longleftrightarrow> m \<le> real (card ((edges_of g)\<^sup>* `` {v}))"
proof
  assume "v \<in> valid_nodes_of g m"
  then obtain k where k: "m \<le> real (card ((edges_of g)\<^sup>* `` {k}))" "v \<in> (edges_of g)\<^sup>* `` {k}"
    unfolding valid_nodes_of_classes[OF s] by blast
  then show "m \<le> real (card ((edges_of g)\<^sup>* `` {v}))"
    using sym_class[OF s k(2)] by simp
next
  assume "m \<le> real (card ((edges_of g)\<^sup>* `` {v}))"
  moreover have "v \<in> (edges_of g)\<^sup>* `` {v}" by simp
  ultimately show "v \<in> valid_nodes_of g m"
    unfolding valid_nodes_of_classes[OF s] using v by blast
qed

section \<open>Parameters and errors of the pipeline\<close>

subsection \<open>Parameters\<close>

lemma get_param_other: "key' \<noteq> key \<Longrightarrow> get_param (ps(key \<mapsto> v)) key' d = get_param ps key' d"
  by (simp add: get_param_def)

lemma get_param_same: "get_param (ps(key \<mapsto> v)) key d = v"
  by (simp add: get_param_def)

lemma get_param_absent: "ps key = None \<Longrightarrow> get_param ps key d = d"
  by (simp add: get_param_def)

lemma get_duration_absent:
  "ps ''max_lightning_duration'' = None \<Longrightarrow> get_param ps ''max_lightning_duration'' d = d"
  by (rule get_param_absent)

lemma mask_duration_key:
  "mask (ps(''max_lightning_duration'' \<mapsto> v)) = mask ps"
  by (intro ext) (simp add: mask_def get_param_other)

lemma valid_indices_duration_key:
  "valid_indices (ps(''max_lightning_duration'' \<mapsto> v)) = valid_indices ps"
  by (intro ext) (simp only: valid_indices_def mask_duration_key)

lemma parent_position_duration_key:
  "parent_position (ps(''max_lightning_duration'' \<mapsto> v)) = parent_position ps"
  by (intro ext) (simp only: parent_position_def valid_indices_duration_key)

lemma edge_at_duration_key:
  "edge_at (ps(''max_lightning_duration'' \<mapsto> v)) = edge_at ps"
  by (intro ext) (simp only: edge_at_def parent_position_duration_key)

lemma build_correlations_duration_key:
  "build_correlations (ps(''max_lightning_duration'' \<mapsto> v)) = build_correlations ps"
  by (intro ext) (simp only: build_correlations_edges edge_at_duration_key)

lemma min_points_duration_key:
  "get_param (ps(''max_lightning_duration'' \<mapsto> v)) ''min_lightning_points'' d
     = get_param ps ''min_lightning_points'' d"
  by (simp add: get_param_other)

lemma stitch_lightning_strike_duration_key:
  "stitch_lightning_strike strike events (ps(''max_lightning_duration'' \<mapsto> v))
     = stitch_lightning_strike strike events ps"
  by (simp only: stitch_lightning_strike_def build_correlations_duration_key min_points_duration_key)

lemma stitch_each_duration_key:
  "stitch_each buckets events (ps(''max_lightning_duration'' \<mapsto> v)) = stitch_each buckets events ps"
  by (induction buckets) (simp_all only: stitch_each.simps stitch_lightning_strike_duration_key)

lemma merges_into_default_duration:
  assumes "ps ''max_lightning_duration'' = None"
  shows "merges_into events (ps(''max_lightning_duration'' \<mapsto> 10)) = merges_into events ps"
  using assms
  by (intro ext)
     (simp add: merges_into_def get_param_other get_param_same get_duration_absent
        del: fun_upd_apply)

lemma merge_first_default_duration:
  assumes "ps ''max_lightning_duration'' = None"
  shows "merge_first events (ps(''max_lightning_duration'' \<mapsto> 10)) sc temp = merge_first events ps sc temp"
proof -
  have m: "merges_into events (ps(''max_lightning_duration'' \<mapsto> 10)) = merges_into events ps"
    using assms by (rule merges_into_default_duration)
  show ?thesis
    by (induction temp)
       (simp_all only: merge_first.simps m stitch_lightning_strike_duration_key)
qed

lemma merge_loop_default_duration:
  assumes "ps ''max_lightning_duration'' = None"
  shows "merge_loop events (ps(''max_lightning_duration'' \<mapsto> 10)) todo temp = merge_loop events ps todo temp"
proof -
  have m: "\<And>sc temp. merge_first events (ps(''max_lightning_duration'' \<mapsto> 10)) sc temp
      = merge_first events ps sc temp"
    using assms by (rule merge_first_default_duration)
  show ?thesis
    by (induction todo arbitrary: temp)
       (simp_all add: m Let_def split: sum.splits option.splits del: fun_upd_apply)
qed

lemma combine_duration_key:
  "get_param (ps(''max_lightning_duration'' \<mapsto> v)) ''combine_strikes_with_intercepting_times'' d
     = get_param ps ''combine_strikes_with_intercepting_times'' d"
  by (simp add: get_param_other)

subsection \<open>Errors of the clustering\<close>

lemma take_rows_error: "take_rows arr idxs = Inl e \<Longrightarrow> e = IndexError"
  by (simp add: take_rows_def split: if_splits)

lemma process_group_error: "process_group args g = Inl e \<Longrightarrow> e = IndexError"
  by (auto simp: process_group_def Let_def split: if_splits sum.splits dest: take_rows_error)

lemma group_loop_error: "group_loop args gs acc = Inl e \<Longrightarrow> e = IndexError"
  by (induction gs arbitrary: acc) (auto split: sum.splits dest: process_group_error)

lemma priv_bucket_error:
  "priv_bucket_dataframe_lightnings m df thr dur dst maxs mins mp = Inl e \<Longrightarrow> e = IndexError"
  by (simp add: priv_bucket_dataframe_lightnings_def bucket_sorted_groups group_loop_error)

subsection \<open>Bounds enter through their squares\<close>

lemma subgroup_accepts_negate: "subgroup_accepts (negate_bounds args) = subgroup_accepts args"
  by (intro ext) (simp add: subgroup_accepts_def negate_bounds_def)

lemma attach_negate: "attach (negate_bounds args) ev sgs = attach args ev sgs"
  by (induction sgs) (simp_all add: subgroup_accepts_negate)

lemma event_step_negate: "event_step (negate_bounds args) = event_step args"
proof (intro ext)
  fix gi st ev
  have f: "max_lightning_duration (negate_bounds args) = max_lightning_duration args"
    "min_pts (negate_bounds args) = min_pts args"
    by (simp_all add: negate_bounds_def)
  show "event_step (negate_bounds args) gi st ev = event_step args gi st ev"
    by (simp add: event_step_def attach_negate f)
qed

lemma scan_group_negate: "scan_group (negate_bounds args) = scan_group args"
proof -
  have f: "finalize_remaining (negate_bounds args) = finalize_remaining args"
    by (intro ext) (simp add: finalize_remaining_def negate_bounds_def)
  show ?thesis
    by (intro ext) (simp only: scan_group_def event_step_negate f)
qed

lemma process_group_negate: "process_group (negate_bounds args) g = process_group args g"
proof -
  have f: "group_ids (negate_bounds args) = group_ids args"
    "min_pts (negate_bounds args) = min_pts args"
    "all_x_values (negate_bounds args) = all_x_values args"
    "all_y_values (negate_bounds args) = all_y_values args"
    "all_z_values (negate_bounds args) = all_z_values args"
    "all_unix_values (negate_bounds args) = all_unix_values args"
    by (simp_all add: negate_bounds_def)
  show ?thesis by (simp only: process_group_def scan_group_negate f)
qed

lemma group_loop_negate: "group_loop (negate_bounds args) gs acc = group_loop args gs acc"
  by (induction gs arbitrary: acc) (simp_all add: process_group_negate split: sum.splits)

lemma priv_bucket_negate:
  "priv_bucket_dataframe_lightnings m df thr dur (- dst) (- maxs) (- mins) mp
     = priv_bucket_dataframe_lightnings m df thr dur dst maxs mins mp"
  using group_loop_negate[of "\<lparr>all_x_values = map col_x (sort_values df),
        all_y_values = map col_y (sort_values df),
        all_z_values = map col_z (sort_values df), all_unix_values = map time_unix (sort_values df),
        unique_groups = [], min_pts = mp,
        group_ids = time_groups (map time_unix (sort_values df)) thr,
        max_lightning_duration = dur, max_dist_between_pts = dst,
        max_time_threshold = thr, min_speed = mins, max_speed = maxs\<rparr>"]
  by (simp add: priv_bucket_dataframe_lightnings_def bucket_sorted_groups negate_bounds_def)

section \<open>The duration bound on clusters\<close>

text \<open>
  C1. With a non-negative \<open>max_lightning_duration\<close>, every cluster that
  \<open>_bucket_dataframe_lightnings\<close> returns (every strike \<open>_group_process\<close> emits, for
  the time-sorted table it is called with) consists of rows of the table, and the
  timestamps of any two of its members differ by at most \<open>max_lightning_duration\<close>.
  An event is attached to a subgroup only if it lies within \<open>max_lightning_duration\<close> of
  the subgroup's first member.
\<close>

theorem cluster_duration_bound:
  assumes "0 \<le> dur"
  shows "(priv_bucket_dataframe_lightnings m df thr dur dst maxs mins mp = Inr clusters \<longrightarrow>
            (\<forall>c \<in> set clusters. \<forall>a \<in> set c. \<forall>b \<in> set c.
               a < length df
               \<and> time_unix (sort_values df ! a) - time_unix (sort_values df ! b) \<le> dur))
       \<and> (subgroup_accepts args sg ev \<longrightarrow>
            event_unix_of ev - hd (sg_unix sg) \<le> max_lightning_duration args)"
proof -
  let ?sd = "sort_values df"
  let ?args = "\<lparr>all_x_values = map col_x ?sd, all_y_values = map col_y ?sd,
        all_z_values = map col_z ?sd, all_unix_values = map time_unix ?sd,
        unique_groups = [], min_pts = mp, group_ids = time_groups (map time_unix ?sd) thr,
        max_lightning_duration = dur, max_dist_between_pts = dst,
        max_time_threshold = thr, min_speed = mins, max_speed = maxs\<rparr>"
  have srt: "sorted (all_unix_values ?args)"
    by (simp add: sort_values_def)
  have d: "0 \<le> max_lightning_duration ?args" using assms by simp
  have 1: "a < length df \<and> time_unix (?sd ! a) - time_unix (?sd ! b) \<le> dur"
    if res: "priv_bucket_dataframe_lightnings m df thr dur dst maxs mins mp = Inr clusters"
      and c: "c \<in> set clusters" and a: "a \<in> set c" and b: "b \<in> set c" for c a b
  proof -
    have "group_loop ?args (map fst (Counter (time_groups (map time_unix ?sd) thr))) [] = Inr clusters"
      using res by (simp add: priv_bucket_dataframe_lightnings_def bucket_sorted_groups)
    from group_loop_span[OF d srt this] c
    have "span_ok dur (map time_unix ?sd) c" by simp
    then have all: "\<forall>a \<in> set c. a < length (map time_unix ?sd)
        \<and> (\<forall>b \<in> set c. map time_unix ?sd ! a - map time_unix ?sd ! b \<le> dur)"
      unfolding span_ok_def list_all_iff .
    have la: "a < length ?sd" and lb: "b < length ?sd" using all a b by auto
    have "map time_unix ?sd ! a - map time_unix ?sd ! b \<le> dur" using all a b by blast
    then show ?thesis using la lb by (simp add: sort_values_def)
  qed
  have 2: "subgroup_accepts args sg ev \<longrightarrow>
            event_unix_of ev - hd (sg_unix sg) \<le> max_lightning_duration args"
    by (simp add: subgroup_accepts_def Let_def)
  show ?thesis using 1 2 by blast
qed

theorem cluster_duration_bound_witness:
  "priv_bucket_dataframe_lightnings 50000
       [\<lparr>label = 0, col_x = 0, col_y = 0, col_z = 0, time_unix = 25\<rparr>,
        \<lparr>label = 1, col_x = 1, col_y = 0, col_z = 0, time_unix = 0\<rparr>,
        \<lparr>label = 2, col_x = 0, col_y = 1, col_z = 0, time_unix = 15\<rparr>] 20 20 50000 300000 0 1
       = Inr [[0, 1], [2]]
   \<and> time_unix (sort_values
       [\<lparr>label = 0, col_x = 0, col_y = 0, col_z = 0, time_unix = 25\<rparr>,
        \<lparr>label = 1, col_x = 1, col_y = 0, col_z = 0, time_unix = 0\<rparr>,
        \<lparr>label = 2, col_x = 0, col_y = 1, col_z = 0, time_unix = 15\<rparr>] ! 1)
     - time_unix (sort_values
       [\<lparr>label = 0, col_x = 0, col_y = 0, col_z = 0, time_unix = 25\<rparr>,
        \<lparr>label = 1, col_x = 1, col_y = 0, col_z = 0, time_unix = 0\<rparr>,
        \<lparr>label = 2, col_x = 0, col_y = 1, col_z = 0, time_unix = 15\<rparr>] ! 0) \<le> 20"
proof -
  let ?df = "[\<lparr>label = 0, col_x = 0, col_y = 0, col_z = 0, time_unix = 25\<rparr>,
        \<lparr>label = 1, col_x = 1, col_y = 0, col_z = 0, time_unix = 0\<rparr>,
        \<lparr>label = 2, col_x = 0, col_y = 1, col_z = 0, time_unix = (15::real)\<rparr>]"
  have ev: "priv_bucket_dataframe_lightnings 50000 ?df 20 20 50000 300000 0 1 = Inr [[0, 1], [2]]"
    by code_simp
  have "\<forall>c \<in> set [[0, 1], [2::nat]]. \<forall>a \<in> set c. \<forall>b \<in> set c.
          a < length ?df \<and> time_unix (sort_values ?df ! a) - time_unix (sort_values ?df ! b) \<le> 20"
    using cluster_duration_bound[of 20 50000 ?df 20 50000 300000 0 1 "[[0, 1], [2]]"] ev by simp
  then have "time_unix (sort_values ?df ! 1) - time_unix (sort_values ?df ! 0) \<le> 20"
    by simp
  then show ?thesis using ev by simp
qed

section \<open>Empty tables\<close>

text \<open>The floor keeps every divisor of the speed computations positive.\<close>

lemma floor_dt_squared_pos: "0 < floor_dt_squared v"
  by (simp add: floor_dt_squared_def)

text \<open>
  For a table without rows \<open>time_groups\<close> is still \<open>[0]\<close>: one group id for no event.
  \<open>np.where\<close> then yields position 0, and unless \<open>min_pts\<close> exceeds 1 the extraction
  \<open>all_x_values[group_indices]\<close> reads position 0 of an empty array.
\<close>

lemma empty_table_phantom_group:
  "priv_bucket_dataframe_lightnings m [] thr dur dst maxs mins mp =
     (if mp \<le> 1 then Inl IndexError else Inr [])"
  by (simp add: priv_bucket_dataframe_lightnings_def bucket_sorted_groups sort_values_def
      time_groups_def cumsum_def Counter_def process_group_def where_group_def take_rows_def)

text \<open>
  C7 (the code departs from the claim). On a table with zero events and
  \<open>min_lightning_points = 1\<close> the clustering raises \<open>IndexError\<close>, and so does
  \<open>bucket_dataframe_lightnings\<close>; with the default parameters the clustering returns no
  cluster and the call of the stitcher raises \<open>TypeError\<close>.
\<close>

theorem empty_table_raises:
  "priv_bucket_dataframe_lightnings 50000 [] 1 20 50000 299792.458 0 1 = Inl IndexError
   \<and> bucket_dataframe_lightnings 50000 None [] [''min_lightning_points'' \<mapsto> 1] = Inl IndexError
   \<and> raw_groups_of 50000 [] Map.empty = Inr []
   \<and> bucket_dataframe_lightnings 50000 None [] Map.empty = Inl TypeError"
  by (simp add: empty_table_phantom_group bucket_dataframe_lightnings_def raw_groups_of_def
      get_param_def)

section \<open>Gating of the correlations\<close>

text \<open>
  C2 (as amended). For every correlation \<open>(p, c)\<close> of a chain returned by
  \<open>stitch_lightning_strike\<close>, \<open>p\<close> and \<open>c\<close> are rows of the table and the pair
  passes the mask as the code computes it: the squared distance is at most
  \<open>max_lightning_dist\<^sup>2\<close>, the squared time difference floored at \<open>1e-5\<close> is at most
  \<open>max_lightning_time_threshold\<^sup>2\<close>, and the squared distance divided by that floored
  value lies between \<open>min_lightning_speed\<^sup>2\<close> and \<open>max_lightning_speed\<^sup>2\<close>. Hence, for
  non-negative bounds, the distance is at most \<open>max_lightning_dist\<close>, the absolute time
  difference is at most \<open>max_lightning_time_threshold\<close>, and the speed
  distance/\<open>|dt|\<close> lies between the speed bounds whenever \<open>dt\<^sup>2\<close> is at least \<open>1e-5\<close>.
\<close>

theorem correlation_gating:
  assumes "stitch_lightning_strike strike events ps = Inr chain" and "(p, c) \<in> set chain"
  shows "p < length events \<and> c < length events
       \<and> distances_squared (events ! p) (events ! c) \<le> (get_param ps ''max_lightning_dist'' 50000)\<^sup>2
       \<and> (get_param ps ''min_lightning_speed'' 0)\<^sup>2 \<le> speeds_squared (events ! p) (events ! c)
       \<and> speeds_squared (events ! p) (events ! c) \<le> (get_param ps ''max_lightning_speed'' 299792.458)\<^sup>2
       \<and> dt_squared (events ! p) (events ! c) \<le> (get_param ps ''max_lightning_time_threshold'' 1)\<^sup>2
       \<and> (0 \<le> get_param ps ''max_lightning_dist'' 50000 \<longrightarrow>
            euclid_distance (events ! p) (events ! c) \<le> get_param ps ''max_lightning_dist'' 50000)
       \<and> (0 \<le> get_param ps ''max_lightning_time_threshold'' 1 \<longrightarrow>
            \<bar>time_unix (events ! c) - time_unix (events ! p)\<bar> \<le> get_param ps ''max_lightning_time_threshold'' 1)
       \<and> (0 \<le> get_param ps ''min_lightning_speed'' 0 \<and> 0 \<le> get_param ps ''max_lightning_speed'' 299792.458
            \<and> 1 / 100000 \<le> (time_unix (events ! c) - time_unix (events ! p))\<^sup>2 \<longrightarrow>
            get_param ps ''min_lightning_speed'' 0 \<le> pair_speed (events ! p) (events ! c)
            \<and> pair_speed (events ! p) (events ! c) \<le> get_param ps ''max_lightning_speed'' 299792.458)"
proof -
  let ?p = "events ! p" and ?c = "events ! c"
  let ?md = "get_param ps ''max_lightning_dist'' 50000"
  let ?mx = "get_param ps ''max_lightning_speed'' 299792.458"
  let ?mn = "get_param ps ''min_lightning_speed'' 0"
  let ?th = "get_param ps ''max_lightning_time_threshold'' 1"
  let ?dt = "time_unix ?c - time_unix ?p"
  from assms obtain "p < length events" "c < length events" and m: "mask ps ?p ?c"
    by (rule stitch_edge)
  then have rng: "p < length events \<and> c < length events" by simp
  have d: "distances_squared ?p ?c \<le> ?md\<^sup>2"
    and smx: "speeds_squared ?p ?c \<le> ?mx\<^sup>2"
    and smn: "?mn\<^sup>2 \<le> speeds_squared ?p ?c"
    and t: "dt_squared ?p ?c \<le> ?th\<^sup>2"
    using m by (simp_all add: mask_def)
  have e: "0 \<le> ?md \<longrightarrow> euclid_distance ?p ?c \<le> ?md"
    using d sqrt_le_of_square_le by (simp add: euclid_distance_def)
  have "?dt\<^sup>2 \<le> ?th\<^sup>2"
    using t floor_dt_squared_ge[of "?dt * ?dt"] by (simp add: dt_squared_def power2_eq_square)
  then have "\<bar>?dt\<bar> \<le> \<bar>?th\<bar>" by (simp add: abs_le_square_iff)
  then have a: "0 \<le> ?th \<longrightarrow> \<bar>?dt\<bar> \<le> ?th" by linarith
  have s: "?mn \<le> pair_speed ?p ?c \<and> pair_speed ?p ?c \<le> ?mx"
    if h: "0 \<le> ?mn" "0 \<le> ?mx" "1 / 100000 \<le> ?dt\<^sup>2"
  proof -
    have eq: "speeds_squared ?p ?c = (pair_speed ?p ?c)\<^sup>2"
      using h(3) by (intro pair_speed_squared) (simp add: power2_eq_square)
    have "?mn\<^sup>2 \<le> (pair_speed ?p ?c)\<^sup>2" "(pair_speed ?p ?c)\<^sup>2 \<le> ?mx\<^sup>2"
      using smn smx eq by simp_all
    then show ?thesis using h(1,2) pair_speed_nonneg[of ?p ?c]
      by (simp add: power2_le_iff_abs_le abs_le_square_iff[symmetric])
  qed
  show ?thesis using rng d smn smx t e a s by blast
qed


theorem correlation_gating_witness:
  "stitch_lightning_strike [0, 1]
       [\<lparr>label = 0, col_x = 0, col_y = 0, col_z = 0, time_unix = 0\<rparr>,
        \<lparr>label = 1, col_x = 3, col_y = 4, col_z = 0, time_unix = 1\<rparr>]
       [''min_lightning_points'' \<mapsto> 2] = Inr [(0, 1)]
   \<and> euclid_distance \<lparr>label = 0, col_x = 0, col_y = 0, col_z = 0, time_unix = 0\<rparr>
        \<lparr>label = 1, col_x = 3, col_y = 4, col_z = 0, time_unix = 1\<rparr> \<le> 50000
   \<and> pair_speed \<lparr>label = 0, col_x = 0, col_y = 0, col_z = 0, time_unix = 0\<rparr>
        \<lparr>label = 1, col_x = 3, col_y = 4, col_z = 0, time_unix = 1\<rparr> \<le> 299792.458"
proof -
  let ?ev = "[\<lparr>label = 0, col_x = 0, col_y = 0, col_z = 0, time_unix = 0\<rparr>,
        \<lparr>label = 1, col_x = 3, col_y = 4, col_z = 0, time_unix = (1::real)\<rparr>]"
  let ?ps = "[''min_lightning_points'' \<mapsto> (2::real)]"
  have ev: "stitch_lightning_strike [0, 1] ?ev ?ps = Inr [(0, 1)]"
    by code_simp
  have m: "(0, 1) \<in> set [(0 :: nat, 1 :: nat)]" by simp
  have g: "get_param ?ps ''max_lightning_dist'' 50000 = 50000"
    "get_param ?ps ''max_lightning_speed'' 299792.458 = 299792.458"
    "get_param ?ps ''min_lightning_speed'' 0 = 0"
    by (simp_all add: get_param_def)
  have n: "?ev ! 0 = \<lparr>label = 0, col_x = 0, col_y = 0, col_z = 0, time_unix = 0\<rparr>"
    "?ev ! 1 = \<lparr>label = 1, col_x = 3, col_y = 4, col_z = 0, time_unix = 1\<rparr>"
    by simp_all
  note c = correlation_gating[OF ev m, unfolded g n]
  have e: "euclid_distance \<lparr>label = 0, col_x = 0, col_y = 0, col_z = 0, time_unix = 0\<rparr>
        \<lparr>label = 1, col_x = 3, col_y = 4, col_z = 0, time_unix = 1\<rparr> \<le> 50000"
    using c by simp
  have s: "pair_speed \<lparr>label = 0, col_x = 0, col_y = 0, col_z = 0, time_unix = 0\<rparr>
        \<lparr>label = 1, col_x = 3, col_y = 4, col_z = 0, time_unix = 1\<rparr> \<le> 299792.458"
    using c by simp
  show ?thesis using ev e s by (intro conjI)
qed

text \<open>
  C2 as stated fails: two events 900 m and 1 ms apart are linked under the default speed
  bounds, although their speed, 900000 m/s, exceeds \<open>max_lightning_speed\<close>; the floor
  replaces \<open>dt\<^sup>2 = 1e-6\<close> by \<open>1e-5\<close>.
\<close>

theorem correlation_speed_counterexample:
  "stitch_lightning_strike [0, 1]
       [\<lparr>label = 0, col_x = 0, col_y = 0, col_z = 0, time_unix = 0\<rparr>,
        \<lparr>label = 1, col_x = 900, col_y = 0, col_z = 0, time_unix = 1 / 1000\<rparr>]
       [''min_lightning_points'' \<mapsto> 2] = Inr [(0, 1)]
   \<and> pair_speed \<lparr>label = 0, col_x = 0, col_y = 0, col_z = 0, time_unix = 0\<rparr>
        \<lparr>label = 1, col_x = 900, col_y = 0, col_z = 0, time_unix = 1 / 1000\<rparr> = 900000
   \<and> get_param [''min_lightning_points'' \<mapsto> 2] ''max_lightning_speed'' 299792.458 < 900000"
proof -
  have 1: "stitch_lightning_strike [0, 1]
       [\<lparr>label = 0, col_x = 0, col_y = 0, col_z = 0, time_unix = 0\<rparr>,
        \<lparr>label = 1, col_x = 900, col_y = 0, col_z = 0, time_unix = 1 / 1000\<rparr>]
       [''min_lightning_points'' \<mapsto> 2] = Inr [(0, 1)]"
    by code_simp
  have "sqrt 810000 = 900" by (rule real_sqrt_unique) simp_all
  then have 2: "pair_speed \<lparr>label = 0, col_x = 0, col_y = 0, col_z = 0, time_unix = 0\<rparr>
        \<lparr>label = 1, col_x = 900, col_y = 0, col_z = 0, time_unix = 1 / 1000\<rparr> = 900000"
    by (simp add: pair_speed_def euclid_distance_def distances_squared_def)
  have 3: "get_param [''min_lightning_points'' \<mapsto> 2] ''max_lightning_speed'' 299792.458 < 900000"
    by (simp add: get_param_def)
  show ?thesis using 1 2 3 by blast
qed

section \<open>One parent per event\<close>

text \<open>
  C10 (as amended). For a strike without repeated indices, every event index is the
  child of at most one correlation of the chain \<open>stitch_lightning_strike\<close> returns, and
  the correlations have no cycle: they form a forest. The component-size filter returns
  a sublist of its input, so it keeps children distinct. Every strike the pipeline
  stitches is without repeated indices: the clusters of \<open>_bucket_dataframe_lightnings\<close>
  and the index lists the Chain Merger re-stitches.
\<close>

theorem one_parent_per_event:
  "(distinct strike \<and> stitch_lightning_strike strike events ps = Inr chain \<longrightarrow>
      distinct (map snd chain) \<and> acyclic (set chain))
   \<and> set (filter_correlations_by_chain_size cs m) \<subseteq> set cs
   \<and> (distinct (map snd cs) \<longrightarrow> distinct (map snd (filter_correlations_by_chain_size cs m)))
   \<and> (priv_bucket_dataframe_lightnings mx df thr dur dst maxs mins mp = Inr clusters
        \<and> cl \<in> set clusters \<longrightarrow> distinct cl)
   \<and> distinct (unique_idx_list corr)"
proof -
  have 1: "distinct (map snd chain) \<and> acyclic (set chain)"
    if d: "distinct strike" and r: "stitch_lightning_strike strike events ps = Inr chain"
  proof -
    from r obtain so where so: "sorted_by_loc_time events strike = Inr so"
      and ch: "chain = filter_correlations_by_chain_size
            (build_correlations ps so (map (\<lambda>i. events ! i) so))
            (get_param ps ''min_lightning_points'' 300)"
      by (rule stitch_lightning_strike_Inr)
    have dso: "distinct so" using sorted_by_loc_time_perm[OF so] d by simp
    have a: "distinct (map snd chain)"
      unfolding ch by (intro filter_chain_distinct build_correlations_distinct dso)
    have "\<exists>k i. k < i \<and> i < length so \<and> p = so ! k \<and> c = so ! i" if "(p, c) \<in> set chain" for p c
    proof -
      have "(p, c) \<in> set (build_correlations ps so (map (\<lambda>i. events ! i) so))"
        using that ch filter_chain_subset by blast
      from build_correlations_mem[OF this] show ?thesis by blast
    qed
    then have "acyclic (set chain)" by (rule build_order_acyclic[OF dso])
    then show ?thesis using a by simp
  qed
  have 2: "distinct cl"
    if "priv_bucket_dataframe_lightnings mx df thr dur dst maxs mins mp = Inr clusters"
      and "cl \<in> set clusters"
    using that by (rule clusters_distinct)
  show ?thesis
    using 1 2 filter_chain_subset filter_chain_distinct unique_idx_list_distinct by blast
qed

theorem one_parent_per_event_witness:
  "distinct [0, 1, 2 :: nat]
   \<and> stitch_lightning_strike [0, 1, 2]
       [\<lparr>label = 0, col_x = 0, col_y = 0, col_z = 0, time_unix = 3\<rparr>,
        \<lparr>label = 1, col_x = 1, col_y = 0, col_z = 0, time_unix = 4\<rparr>,
        \<lparr>label = 2, col_x = 2, col_y = 0, col_z = 0, time_unix = 5\<rparr>]
       [''min_lightning_points'' \<mapsto> 2] = Inr [(0, 1), (1, 2)]
   \<and> distinct (map snd [(0 :: nat, 1 :: nat), (1, 2)])
   \<and> acyclic (set [(0 :: nat, 1 :: nat), (1, 2)])"
proof -
  let ?ev = "[\<lparr>label = 0, col_x = 0, col_y = 0, col_z = 0, time_unix = 3\<rparr>,
        \<lparr>label = 1, col_x = 1, col_y = 0, col_z = 0, time_unix = 4\<rparr>,
        \<lparr>label = 2, col_x = 2, col_y = 0, col_z = 0, time_unix = (5::real)\<rparr>]"
  have ev: "stitch_lightning_strike [0, 1, 2] ?ev [''min_lightning_points'' \<mapsto> 2] = Inr [(0, 1), (1, 2)]"
    by code_simp
  have d: "distinct [0, 1, 2 :: nat]" by simp
  have imp: "distinct [0, 1, 2 :: nat]
      \<and> stitch_lightning_strike [0, 1, 2] ?ev [''min_lightning_points'' \<mapsto> 2] = Inr [(0, 1), (1, 2)]
      \<longrightarrow> distinct (map snd [(0 :: nat, 1 :: nat), (1, 2)]) \<and> acyclic (set [(0 :: nat, 1 :: nat), (1, 2)])"
    by (rule conjunct1[OF one_parent_per_event])
  have "distinct (map snd [(0 :: nat, 1 :: nat), (1, 2)]) \<and> acyclic (set [(0 :: nat, 1 :: nat), (1, 2)])"
    by (rule mp[OF imp conjI[OF d ev]])
  then show ?thesis by (intro conjI d ev) (rule conjunct1, assumption, rule conjunct2, assumption)
qed

text \<open>
  C10 as stated fails: \<open>stitch_lightning_strike\<close> does not remove repeated indices, and
  on the strike \<open>[5, 5, 5]\<close> it links event 5 to itself twice.
\<close>

theorem one_parent_per_event_counterexample:
  "stitch_lightning_strike [5, 5, 5]
       [\<lparr>label = 0, col_x = 0, col_y = 0, col_z = 0, time_unix = 0\<rparr>,
        \<lparr>label = 1, col_x = 1, col_y = 0, col_z = 0, time_unix = 1\<rparr>,
        \<lparr>label = 2, col_x = 2, col_y = 0, col_z = 0, time_unix = 2\<rparr>,
        \<lparr>label = 3, col_x = 3, col_y = 0, col_z = 0, time_unix = 3\<rparr>,
        \<lparr>label = 4, col_x = 4, col_y = 0, col_z = 0, time_unix = 4\<rparr>,
        \<lparr>label = 5, col_x = 5, col_y = 0, col_z = 0, time_unix = 5\<rparr>]
       [''min_lightning_points'' \<mapsto> 1] = Inr [(5, 5), (5, 5)]
   \<and> \<not> distinct (map snd [(5 :: nat, 5 :: nat), (5, 5)])
   \<and> \<not> acyclic (set [(5 :: nat, 5 :: nat), (5, 5)])"
proof -
  have 1: "stitch_lightning_strike [5, 5, 5]
       [\<lparr>label = 0, col_x = 0, col_y = 0, col_z = 0, time_unix = 0\<rparr>,
        \<lparr>label = 1, col_x = 1, col_y = 0, col_z = 0, time_unix = 1\<rparr>,
        \<lparr>label = 2, col_x = 2, col_y = 0, col_z = 0, time_unix = 2\<rparr>,
        \<lparr>label = 3, col_x = 3, col_y = 0, col_z = 0, time_unix = 3\<rparr>,
        \<lparr>label = 4, col_x = 4, col_y = 0, col_z = 0, time_unix = 4\<rparr>,
        \<lparr>label = 5, col_x = 5, col_y = 0, col_z = 0, time_unix = 5\<rparr>]
       [''min_lightning_points'' \<mapsto> 1] = Inr [(5, 5), (5, 5)]"
    by code_simp
  have 2: "\<not> distinct (map snd [(5 :: nat, 5 :: nat), (5, 5)])" by simp
  have "(5 :: nat, 5 :: nat) \<in> (set [(5 :: nat, 5 :: nat), (5, 5)])\<^sup>+" by auto
  then have 3: "\<not> acyclic (set [(5 :: nat, 5 :: nat), (5, 5)])"
    unfolding acyclic_def by blast
  show ?thesis using 1 2 3 by (intro conjI)
qed

section \<open>The processing order of the Chain Builder\<close>

text \<open>
  C3 (the code departs from the claim). The table below is what the in-place sort of
  \<open>_bucket_dataframe_lightnings\<close> leaves of the rows with times 5, 3, 4: positions in time
  order, labels permuted. \<open>stitch_lightning_strike\<close> orders the strike \<open>[0, 1, 2]\<close> by
  \<open>events.loc\<close>, the time of the row labelled with each index, and reads the data by
  \<open>events.iloc\<close>, the row at that position: the events are processed in the order
  \<open>[1, 2, 0]\<close>, with times 4, 5, 3, and the earliest event 0 becomes the child of event 1.
  The selection of the parent among the events processed before is as the claim says
  (\<open>parent_position_Some\<close>, \<open>parent_position_least\<close>, \<open>parent_position_None\<close>,
  \<open>build_correlations_edges\<close>), and the order is ascending in time when every label is
  its position (\<open>sorted_by_loc_time_ascending\<close>).
\<close>

theorem chain_builder_label_order:
  "sorted_by_loc_time
       [\<lparr>label = 1, col_x = 0, col_y = 0, col_z = 0, time_unix = 3\<rparr>,
        \<lparr>label = 2, col_x = 1, col_y = 0, col_z = 0, time_unix = 4\<rparr>,
        \<lparr>label = 0, col_x = 2, col_y = 0, col_z = 0, time_unix = 5\<rparr>] [0, 1, 2] = Inr [1, 2, 0]
   \<and> stitch_lightning_strike [0, 1, 2]
       [\<lparr>label = 1, col_x = 0, col_y = 0, col_z = 0, time_unix = 3\<rparr>,
        \<lparr>label = 2, col_x = 1, col_y = 0, col_z = 0, time_unix = 4\<rparr>,
        \<lparr>label = 0, col_x = 2, col_y = 0, col_z = 0, time_unix = 5\<rparr>]
       [''min_lightning_points'' \<mapsto> 2] = Inr [(1, 2), (1, 0)]
   \<and> sort_values
       [\<lparr>label = 0, col_x = 2, col_y = 0, col_z = 0, time_unix = 5\<rparr>,
        \<lparr>label = 1, col_x = 0, col_y = 0, col_z = 0, time_unix = 3\<rparr>,
        \<lparr>label = 2, col_x = 1, col_y = 0, col_z = 0, time_unix = 4\<rparr>]
     = [\<lparr>label = 1, col_x = 0, col_y = 0, col_z = 0, time_unix = 3\<rparr>,
        \<lparr>label = 2, col_x = 1, col_y = 0, col_z = 0, time_unix = 4\<rparr>,
        \<lparr>label = 0, col_x = 2, col_y = 0, col_z = 0, time_unix = 5\<rparr>]"
  by code_simp

section \<open>Correctness of the Chain Validator\<close>

text \<open>
  C4. \<open>filter_correlations_by_chain_size\<close> returns exactly the input correlations, in
  input order, both of whose endpoints lie in a connected component with at least
  \<open>min_pts\<close> nodes of the undirected graph whose edges are the input correlations.
\<close>

theorem chain_validator_components:
  "filter_correlations_by_chain_size correlations min_points
     = filter (\<lambda>(p, c). min_points \<le> real (card (component_of correlations p))
                      \<and> min_points \<le> real (card (component_of correlations c)))
         correlations"
proof -
  let ?g = "build_graph correlations"
  have e: "edges_of ?g = set correlations \<union> (set correlations)\<inverse>" by (rule edges_build_graph)
  have s: "sym (edges_of ?g)" unfolding e by (auto simp: sym_def)
  have c: "(edges_of ?g)\<^sup>* `` {v} = component_of correlations v" for v
    unfolding e component_of_def by auto
  have "(p \<in> valid_nodes_of ?g min_points \<and> c \<in> valid_nodes_of ?g min_points)
      = (min_points \<le> real (card (component_of correlations p))
         \<and> min_points \<le> real (card (component_of correlations c)))"
    if "(p, c) \<in> set correlations" for p c
  proof -
    have "p \<in> set (map fst ?g)" "c \<in> set (map fst ?g)"
      using that unfolding keys_build_graph by force+
    then show ?thesis using valid_node_iff[OF s] c by simp
  qed
  then show ?thesis
    unfolding filter_correlations_by_chain_size_def Let_def
    by (intro filter_cong) auto
qed

theorem chain_validator_components_witness:
  "filter (\<lambda>(p, c). 3 \<le> real (card (component_of [(2, 3), (4, 5), (3, 6)] p))
                      \<and> 3 \<le> real (card (component_of [(2, 3), (4, 5), (3, 6)] c)))
         [(2, 3), (4, 5), (3, 6)] = [(2, 3), (3, 6)]"
proof -
  have "filter_correlations_by_chain_size [(2, 3), (4, 5), (3, 6)] 3 = [(2, 3), (3, 6)]"
    by code_simp
  then show ?thesis unfolding chain_validator_components .
qed

section \<open>The defaults of \<open>max_lightning_duration\<close>\<close>

text \<open>
  C9 (as amended). When \<open>max_lightning_duration\<close> is absent from the parameters, the
  clustering call of \<open>bucket_dataframe_lightnings\<close> behaves as with the value 20.0, and
  the Chain Merger (\<open>stitch_lightning_strikes\<close>) behaves as with the value 10.
\<close>

theorem duration_defaults:
  assumes "ps ''max_lightning_duration'' = None"
  shows "raw_groups_of m df ps = raw_groups_of m df (ps(''max_lightning_duration'' \<mapsto> 20))
       \<and> stitch_lightning_strikes buckets events ps
           = stitch_lightning_strikes buckets events (ps(''max_lightning_duration'' \<mapsto> 10))"
proof -
  have 1: "raw_groups_of m df ps = raw_groups_of m df (ps(''max_lightning_duration'' \<mapsto> 20))"
    using assms
    by (simp add: raw_groups_of_def get_param_other get_param_same get_duration_absent
        del: fun_upd_apply)
  have ml: "\<And>todo temp. merge_loop events (ps(''max_lightning_duration'' \<mapsto> 10)) todo temp
      = merge_loop events ps todo temp"
    using assms by (rule merge_loop_default_duration)
  have 2: "stitch_lightning_strikes buckets events (ps(''max_lightning_duration'' \<mapsto> 10))
      = stitch_lightning_strikes buckets events ps"
    by (simp only: stitch_lightning_strikes_def stitch_each_duration_key combine_duration_key ml)
  show ?thesis using 1 2 by simp
qed

theorem duration_defaults_witness:
  "stitch_lightning_strikes [[0, 1], [2, 3]]
       [\<lparr>label = 0, col_x = 0, col_y = 0, col_z = 0, time_unix = 0\<rparr>,
        \<lparr>label = 1, col_x = 1, col_y = 0, col_z = 0, time_unix = 1\<rparr>,
        \<lparr>label = 2, col_x = 2, col_y = 0, col_z = 0, time_unix = 10.5\<rparr>,
        \<lparr>label = 3, col_x = 3, col_y = 0, col_z = 0, time_unix = 11.5\<rparr>]
       [''min_lightning_points'' \<mapsto> 2, ''max_lightning_duration'' \<mapsto> 10] = Inr [[(0, 1)], [(2, 3)]]
   \<and> raw_groups_of 50000
       [\<lparr>label = 0, col_x = 0, col_y = 0, col_z = 0, time_unix = 0\<rparr>,
        \<lparr>label = 1, col_x = 1, col_y = 0, col_z = 0, time_unix = 1\<rparr>,
        \<lparr>label = 2, col_x = 2, col_y = 0, col_z = 0, time_unix = 10.5\<rparr>,
        \<lparr>label = 3, col_x = 3, col_y = 0, col_z = 0, time_unix = 11.5\<rparr>]
       [''min_lightning_points'' \<mapsto> 2, ''max_lightning_duration'' \<mapsto> 20] = Inr [[0, 1], [2, 3]]"
proof -
  let ?ev = "[\<lparr>label = 0, col_x = 0, col_y = 0, col_z = 0, time_unix = 0\<rparr>,
        \<lparr>label = 1, col_x = 1, col_y = 0, col_z = 0, time_unix = 1\<rparr>,
        \<lparr>label = 2, col_x = 2, col_y = 0, col_z = 0, time_unix = 10.5\<rparr>,
        \<lparr>label = 3, col_x = 3, col_y = 0, col_z = 0, time_unix = (11.5::real)\<rparr>]"
  let ?ps = "[''min_lightning_points'' \<mapsto> (2::real)]"
  have a: "?ps ''max_lightning_duration'' = None" by simp
  have s: "stitch_lightning_strikes [[0, 1], [2, 3]] ?ev ?ps = Inr [[(0, 1)], [(2, 3)]]"
    by code_simp
  have r: "raw_groups_of 50000 ?ev ?ps = Inr [[0, 1], [2, 3]]"
    by code_simp
  note d = duration_defaults[of ?ps 50000 ?ev "[[0, 1], [2, 3]]" ?ev, OF a]
  have 1: "stitch_lightning_strikes [[0, 1], [2, 3]] ?ev (?ps(''max_lightning_duration'' \<mapsto> 10))
      = Inr [[(0, 1)], [(2, 3)]]"
    using d s by (simp only:)
  have 2: "raw_groups_of 50000 ?ev (?ps(''max_lightning_duration'' \<mapsto> 20)) = Inr [[0, 1], [2, 3]]"
    using d r by (simp only:)
  show ?thesis using 1 2 by (intro conjI)
qed

text \<open>
  C9 as stated fails: two chains whose window gap is 11.5 s stay apart when the key is
  absent and merge when it is given as 20.
\<close>

theorem duration_default_counterexample:
  "stitch_lightning_strikes [[0, 1], [2, 3]]
       [\<lparr>label = 0, col_x = 0, col_y = 0, col_z = 0, time_unix = 0\<rparr>,
        \<lparr>label = 1, col_x = 1, col_y = 0, col_z = 0, time_unix = 1\<rparr>,
        \<lparr>label = 2, col_x = 2, col_y = 0, col_z = 0, time_unix = 10.5\<rparr>,
        \<lparr>label = 3, col_x = 3, col_y = 0, col_z = 0, time_unix = 11.5\<rparr>]
       [''min_lightning_points'' \<mapsto> 2] = Inr [[(0, 1)], [(2, 3)]]
   \<and> stitch_lightning_strikes [[0, 1], [2, 3]]
       [\<lparr>label = 0, col_x = 0, col_y = 0, col_z = 0, time_unix = 0\<rparr>,
        \<lparr>label = 1, col_x = 1, col_y = 0, col_z = 0, time_unix = 1\<rparr>,
        \<lparr>label = 2, col_x = 2, col_y = 0, col_z = 0, time_unix = 10.5\<rparr>,
        \<lparr>label = 3, col_x = 3, col_y = 0, col_z = 0, time_unix = 11.5\<rparr>]
       [''min_lightning_points'' \<mapsto> 2, ''max_lightning_duration'' \<mapsto> 20] = Inr [[(0, 1), (2, 3)]]"
  by code_simp

section \<open>No validation of parameters\<close>

text \<open>
  C8 (as amended). \<open>bucket_dataframe_lightnings\<close> validates no parameter: neither it
  nor the clustering it starts ever fails with \<open>ConfigError\<close>, whatever the parameters; the
  clustering runs with the values as given, and negated distance and speed bounds give
  the same clusters as the bounds themselves, since only their squares are used.
\<close>

theorem no_parameter_validation:
  "bucket_dataframe_lightnings m cached df ps \<noteq> Inl ConfigError
   \<and> raw_groups_of m df ps \<noteq> Inl ConfigError
   \<and> priv_bucket_dataframe_lightnings m df thr dur (- dst) (- maxs) (- mins) mp
       = priv_bucket_dataframe_lightnings m df thr dur dst maxs mins mp"
proof -
  have r: "raw_groups_of m df ps \<noteq> Inl ConfigError"
    unfolding raw_groups_of_def using priv_bucket_error by fastforce
  have b: "bucket_dataframe_lightnings m cached df ps \<noteq> Inl ConfigError"
    using r by (auto simp: bucket_dataframe_lightnings_def split: option.splits sum.splits)
  show ?thesis using r b priv_bucket_negate by simp
qed

text \<open>
  C8 as stated fails: with \<open>min_lightning_speed = 5 > max_lightning_speed = 1\<close> the
  clustering runs and returns clusters, and the error raised afterwards is the
  \<open>TypeError\<close> of the stitcher call, not a \<open>ConfigError\<close>.
\<close>

theorem no_parameter_validation_counterexample:
  "raw_groups_of 50000
       [\<lparr>label = 0, col_x = 0, col_y = 0, col_z = 0, time_unix = 0\<rparr>,
        \<lparr>label = 1, col_x = 1, col_y = 0, col_z = 0, time_unix = 1 / 2\<rparr>]
       [''min_lightning_speed'' \<mapsto> 5, ''max_lightning_speed'' \<mapsto> 1,
        ''min_lightning_points'' \<mapsto> 1] = Inr [[0], [1]]
   \<and> bucket_dataframe_lightnings 50000 None
       [\<lparr>label = 0, col_x = 0, col_y = 0, col_z = 0, time_unix = 0\<rparr>,
        \<lparr>label = 1, col_x = 1, col_y = 0, col_z = 0, time_unix = 1 / 2\<rparr>]
       [''min_lightning_speed'' \<mapsto> 5, ''max_lightning_speed'' \<mapsto> 1,
        ''min_lightning_points'' \<mapsto> 1] = Inl TypeError"
  by code_simp

section \<open>Chunk invariance\<close>

text \<open>
  C6. For every table and parameter set, any two values of \<open>MAX_CHUNK_SIZE\<close> give the
  same clusters from \<open>_bucket_dataframe_lightnings\<close>, hence the same chains from the
  stitcher applied to them, and the same outcome of \<open>bucket_dataframe_lightnings\<close>.
\<close>

theorem chunk_invariance:
  "priv_bucket_dataframe_lightnings m1 df thr dur dst maxs mins mp
     = priv_bucket_dataframe_lightnings m2 df thr dur dst maxs mins mp
   \<and> raw_groups_of m1 df ps = raw_groups_of m2 df ps
   \<and> (case raw_groups_of m1 df ps of Inl e \<Rightarrow> Inl e
       | Inr raw_groups \<Rightarrow> stitch_lightning_strikes raw_groups (sort_values df) ps)
     = (case raw_groups_of m2 df ps of Inl e \<Rightarrow> Inl e
       | Inr raw_groups \<Rightarrow> stitch_lightning_strikes raw_groups (sort_values df) ps)
   \<and> bucket_dataframe_lightnings m1 cached df ps = bucket_dataframe_lightnings m2 cached df ps"
proof -
  have p: "priv_bucket_dataframe_lightnings m1 df a b c d e f
      = priv_bucket_dataframe_lightnings m2 df a b c d e f" for a b c d e f
    unfolding priv_bucket_dataframe_lightnings_def by (rule bucket_sorted_chunk_invariant)
  have r: "raw_groups_of m1 df ps = raw_groups_of m2 df ps"
    unfolding raw_groups_of_def by (rule p)
  have b: "bucket_dataframe_lightnings m1 cached df ps = bucket_dataframe_lightnings m2 cached df ps"
    by (simp only: bucket_dataframe_lightnings_def r)
  show ?thesis using p r b by (simp only:)
qed

theorem chunk_invariance_witness:
  "priv_bucket_dataframe_lightnings 1
       [\<lparr>label = 0, col_x = 0, col_y = 0, col_z = 0, time_unix = 25\<rparr>,
        \<lparr>label = 1, col_x = 1, col_y = 0, col_z = 0, time_unix = 0\<rparr>,
        \<lparr>label = 2, col_x = 0, col_y = 1, col_z = 0, time_unix = 15\<rparr>] 5 20 50000 300000 0 1
     = Inr [[0], [1], [2]]
   \<and> chunk_items (Counter (time_groups [0, 15, 25] 5)) 1 = [[0], [1], [2]]
   \<and> chunk_items (Counter (time_groups [0, 15, 25] 5)) 50000 = [[0, 1, 2]]"
proof -
  let ?df = "[\<lparr>label = 0, col_x = 0, col_y = 0, col_z = 0, time_unix = 25\<rparr>,
        \<lparr>label = 1, col_x = 1, col_y = 0, col_z = 0, time_unix = 0\<rparr>,
        \<lparr>label = 2, col_x = 0, col_y = 1, col_z = 0, time_unix = (15::real)\<rparr>]"
  have big: "priv_bucket_dataframe_lightnings 50000 ?df 5 20 50000 300000 0 1 = Inr [[0], [1], [2]]"
    by code_simp
  have c1: "chunk_items (Counter (time_groups [0, 15, 25] 5)) 1 = [[0], [1], [2]]"
    by code_simp
  have c2: "chunk_items (Counter (time_groups [0, 15, 25] 5)) 50000 = [[0, 1, 2]]"
    by code_simp
  have "priv_bucket_dataframe_lightnings 1 ?df 5 20 50000 300000 0 1
      = priv_bucket_dataframe_lightnings 50000 ?df 5 20 50000 300000 0 1"
    by (rule conjunct1[OF chunk_invariance])
  then show ?thesis using big c1 c2 by (simp only:) 
qed

end
